theory Spec2Isabelle
  imports Main "HOL-Library.Multiset" "HOL-Library.Sublist" "HOL-Library.Word"
begin

section \<open>Data model\<close>

text \<open>
  The exceptions the code can raise: \<open>heapq.heappop\<close> on an empty list (IndexError),
  a dictionary lookup of an absent key (KeyError), \<open>int('', 2)\<close> and \<open>bytes\<close> of a value
  above 255 (ValueError).
\<close>

datatype error = IndexError | KeyError | ValueError

text \<open>
  Class \<open>Node\<close>: \<open>key\<close> is the character or \<open>None\<close>, \<open>left\<close> and \<open>right\<close> are a
  node or \<open>None\<close>. A frequency is a count of occurrences or a sum of such counts,
  so it is a natural number (Python integers are unbounded).
\<close>

datatype 'a node =
  Node (key: "'a option") (freq: nat) (left: "'a node option") (right: "'a node option")

text \<open>\<open>Node(key, freq)\<close>: the constructor leaves both children \<open>None\<close>.\<close>

definition new_node :: "'a option \<Rightarrow> nat \<Rightarrow> 'a node" where
  "new_node k f = Node k f None None"

text \<open>\<open>Node.__lt__\<close>: nodes are compared by frequency only.\<close>

definition node_lt :: "'a node \<Rightarrow> 'a node \<Rightarrow> bool" where
  "node_lt a b = (freq a < freq b)"

text \<open>
  The state of a \<open>HuffmanCoding\<close> object. A bit string (a Python \<open>str\<close> of the characters
  0 and 1) is a list of booleans, \<open>False\<close> for the character 0 and \<open>True\<close> for 1.
  The field \<open>path\<close> only names files and is left out.
\<close>

record 'a huffman_coding =
  min_heap :: "'a node list"
  codes_hash_table :: "'a \<rightharpoonup> bool list"
  reverse_codes_hash_table :: "bool list \<rightharpoonup> 'a"

text \<open>\<open>HuffmanCoding.__init__\<close>.\<close>

definition init :: "'a huffman_coding" where
  "init = \<lparr>min_heap = [], codes_hash_table = Map.empty, reverse_codes_hash_table = Map.empty\<rparr>"

section \<open>The library functions the code calls\<close>

subsection \<open>collections.Counter\<close>

text \<open>
  \<open>Counter(text)\<close> counts the elements of \<open>text\<close> from left to right; a dictionary
  iterates in insertion order, so the keys come in the order of their first occurrence.
  The dictionary is an association list, since \<open>__build_heap\<close> depends on that order.
\<close>

fun counter_add :: "'a \<Rightarrow> ('a \<times> nat) list \<Rightarrow> ('a \<times> nat) list" where
  "counter_add x [] = [(x, 1)]"
| "counter_add x ((k, n) # kvs) =
     (if k = x then (k, n + 1) # kvs else (k, n) # counter_add x kvs)"

definition counter :: "'a list \<Rightarrow> ('a \<times> nat) list" where
  "counter xs = fold counter_add xs []"

subsection \<open>heapq\<close>

text \<open>
  The functions of \<open>heapq\<close> follow its reference implementation in Python
  (\<open>Lib/heapq.py\<close>); items are compared with \<open><\<close> only. Every index they
  read is inside the list: \<open>heappush\<close> sifts from the last position, \<open>heappop\<close>
  from position 0 of a non-empty list, and parents and children are read below the
  length.
\<close>

text \<open>
  \<open>heapq._siftdown(heap, startpos, pos)\<close>: the item at \<open>pos\<close> moves towards the root
  while it is smaller than its parent; parents move down into the hole. The loop state
  is the list and \<open>pos\<close>; \<open>newitem\<close> is read before the loop.
\<close>

function siftdown_loop :: "'a node list \<Rightarrow> nat \<Rightarrow> 'a node \<Rightarrow> nat \<Rightarrow> 'a node list" where
  "siftdown_loop heap startpos newitem pos =
     (if pos > startpos then
        (let parentpos = (pos - 1) div 2;
             parent = heap ! parentpos
         in if node_lt newitem parent
            then siftdown_loop (heap[pos := parent]) startpos newitem parentpos
            else heap[pos := newitem])
      else heap[pos := newitem])"
  by pat_completeness auto
termination
  by (relation "measure (\<lambda>(heap, startpos, newitem, pos). pos)") auto

definition siftdown :: "'a node list \<Rightarrow> nat \<Rightarrow> nat \<Rightarrow> 'a node list" where
  "siftdown heap startpos pos = siftdown_loop heap startpos (heap ! pos) pos"

text \<open>
  \<open>heapq._siftup(heap, pos)\<close>: the smaller child moves up into the hole until the hole
  is a leaf; then \<open>newitem\<close> is put there and sifted down from there. The first loop
  returns the list and the final \<open>pos\<close>.
\<close>

function siftup_loop :: "'a node list \<Rightarrow> nat \<Rightarrow> nat \<Rightarrow> 'a node list \<times> nat" where
  "siftup_loop heap pos childpos =
     (if childpos < length heap then
        (let rightpos = childpos + 1;
             childpos' = (if rightpos < length heap
                            \<and> \<not> node_lt (heap ! childpos) (heap ! rightpos)
                          then rightpos else childpos);
             heap' = heap[pos := heap ! childpos']
         in siftup_loop heap' childpos' (2 * childpos' + 1))
      else (heap, pos))"
  by pat_completeness auto
termination
  by (relation "measure (\<lambda>(heap, pos, childpos). length heap - childpos)") (auto simp: Let_def)

definition siftup :: "'a node list \<Rightarrow> nat \<Rightarrow> 'a node list" where
  "siftup heap pos =
     (let newitem = heap ! pos;
          (heap', pos') = siftup_loop heap pos (2 * pos + 1)
      in siftdown (heap'[pos' := newitem]) pos pos')"

text \<open>\<open>heapq.heappush(heap, item)\<close>.\<close>

definition heappush :: "'a node list \<Rightarrow> 'a node \<Rightarrow> 'a node list" where
  "heappush heap item = siftdown (heap @ [item]) 0 (length heap)"

text \<open>
  \<open>heapq.heappop(heap)\<close>: \<open>heap.pop()\<close> raises IndexError on the empty list. The result
  is the item returned and the list left.
\<close>

definition heappop :: "'a node list \<Rightarrow> error + ('a node \<times> 'a node list)" where
  "heappop heap =
     (if heap = [] then Inl IndexError
      else (let lastelt = last heap; heap' = butlast heap
            in if heap' \<noteq> [] then Inr (heap' ! 0, siftup (heap'[0 := lastelt]) 0)
               else Inr (lastelt, heap')))"

section \<open>The methods of HuffmanCoding\<close>

text \<open>\<open>__make_freq_dict\<close>.\<close>

definition make_freq_dict :: "'a list \<Rightarrow> ('a \<times> nat) list" where
  "make_freq_dict text = counter text"

text \<open>\<open>__build_heap\<close>: one leaf per key, pushed in the dictionary's order.\<close>

fun build_heap :: "('a \<times> nat) list \<Rightarrow> 'a huffman_coding \<Rightarrow> 'a huffman_coding" where
  "build_heap [] s = s"
| "build_heap ((k, f) # kvs) s =
     build_heap kvs (s\<lparr>min_heap := heappush (min_heap s) (new_node (Some k) f)\<rparr>)"

text \<open>
  One iteration of the loop of \<open>__build_tree\<close>: two pops, one push. Neither pop can
  raise inside the loop (the heap has at least two nodes there); the model keeps the
  error branches all the same.
\<close>

definition merge_step :: "'a node list \<Rightarrow> error + 'a node list" where
  "merge_step heap =
     (case heappop heap of
        Inl e \<Rightarrow> Inl e
      | Inr (node_1, heap1) \<Rightarrow>
          (case heappop heap1 of
             Inl e \<Rightarrow> Inl e
           | Inr (node_2, heap2) \<Rightarrow>
               (let freq_sum = freq node_1 + freq node_2;
                    new = Node None freq_sum (Some node_1) (Some node_2)
                in Inr (heappush heap2 new))))"

declare siftdown_loop.simps [simp del] siftup_loop.simps [simp del]

lemma length_siftdown_loop [simp]:
  "length (siftdown_loop heap startpos newitem pos) = length heap"
proof (induction heap startpos newitem pos rule: siftdown_loop.induct)
  case (1 heap startpos newitem pos)
  show ?case
    using "1.IH" by (subst siftdown_loop.simps) (simp add: Let_def)
qed

lemma length_siftdown [simp]: "length (siftdown heap startpos pos) = length heap"
  by (simp add: siftdown_def)

lemma length_siftup_loop [simp]:
  "length (fst (siftup_loop heap pos childpos)) = length heap"
proof (induction heap pos childpos rule: siftup_loop.induct)
  case (1 heap pos childpos)
  show ?case
    using "1.IH" by (subst siftup_loop.simps) (simp add: Let_def)
qed

lemma length_siftup_loop_eq:
  "siftup_loop heap pos childpos = (h, p) \<Longrightarrow> length h = length heap"
  using length_siftup_loop [of heap pos childpos] by simp

lemma length_siftup [simp]: "length (siftup heap pos) = length heap"
  by (auto simp: siftup_def split: prod.split dest: length_siftup_loop_eq)

lemma length_heappush [simp]: "length (heappush heap item) = Suc (length heap)"
  by (simp add: heappush_def)

lemma length_heappop:
  "heappop heap = Inr (x, heap') \<Longrightarrow> Suc (length heap') = length heap"
  by (cases heap rule: rev_cases) (auto simp: heappop_def Let_def split: if_splits)

lemma length_merge_step:
  "merge_step heap = Inr heap' \<Longrightarrow> Suc (length heap') = length heap"
  by (auto simp: merge_step_def Let_def split: sum.splits dest!: length_heappop)

text \<open>
  \<open>__build_tree\<close>: the loop runs while the heap holds more than one node. Each
  iteration makes the heap one node shorter, so the loop ends.
\<close>

function build_tree :: "'a huffman_coding \<Rightarrow> error + 'a huffman_coding" where
  "build_tree s =
     (if length (min_heap s) > 1 then
        (case merge_step (min_heap s) of
           Inl e \<Rightarrow> Inl e
         | Inr heap' \<Rightarrow> build_tree (s\<lparr>min_heap := heap'\<rparr>))
      else Inr s)"
  by pat_completeness auto
termination
  by (relation "measure (\<lambda>s. length (min_heap s))") (auto dest: length_merge_step)

declare build_tree.simps [simp del]

text \<open>
  \<open>__build_codes(node, bin_code)\<close>: \<open>None\<close> returns at once; a node with a key stores
  its code in both tables; then the left child is visited with a 0 appended and the
  right child with a 1 appended, whatever the node.
\<close>

fun build_codes :: "'a node option \<Rightarrow> bool list \<Rightarrow> 'a huffman_coding \<Rightarrow> 'a huffman_coding" where
  "build_codes None bin_code s = s"
| "build_codes (Some (Node k f l r)) bin_code s =
     (let s1 = (case k of
                  None \<Rightarrow> s
                | Some c \<Rightarrow>
                    s\<lparr>codes_hash_table := (codes_hash_table s)(c \<mapsto> bin_code),
                      reverse_codes_hash_table := (reverse_codes_hash_table s)(bin_code \<mapsto> c)\<rparr>);
          s2 = build_codes l (bin_code @ [False]) s1
      in build_codes r (bin_code @ [True]) s2)"

text \<open>
  \<open>"{0:08b}".format(n)\<close> and \<open>bin(n)[2:].rjust(8, '0')\<close>: the binary digits of \<open>n\<close>,
  most significant first, filled with zeros on the left up to eight digits.
\<close>

fun bin_digits :: "nat \<Rightarrow> bool list" where
  "bin_digits n = (if n < 2 then [n = 1] else bin_digits (n div 2) @ [n mod 2 = 1])"

declare bin_digits.simps [simp del]

definition format_08b :: "nat \<Rightarrow> bool list" where
  "format_08b n = replicate (8 - length (bin_digits n)) False @ bin_digits n"

text \<open>\<open>int(byte, 2)\<close> of a non-empty string of binary digits.\<close>

definition int2 :: "bool list \<Rightarrow> nat" where
  "int2 bs = foldl (\<lambda>acc b. 2 * acc + (if b then 1 else 0)) 0 bs"

text \<open>
  The first loop of \<open>__encode_text\<close>: the codes of the characters, concatenated; a
  character that is not in the table raises KeyError.
\<close>

fun encode_chars :: "('a \<rightharpoonup> bool list) \<Rightarrow> 'a list \<Rightarrow> bool list \<Rightarrow> error + bool list" where
  "encode_chars codes [] encoded_text = Inr encoded_text"
| "encode_chars codes (char # cs) encoded_text =
     (case codes char of
        None \<Rightarrow> Inl KeyError
      | Some code \<Rightarrow> encode_chars codes cs (encoded_text @ code))"

text \<open>\<open>__encode_text\<close>: the codes, the pad, and the pad amount in front.\<close>

definition encode_text :: "'a huffman_coding \<Rightarrow> 'a list \<Rightarrow> error + bool list" where
  "encode_text s text =
     (case encode_chars (codes_hash_table s) text [] of
        Inl e \<Rightarrow> Inl e
      | Inr encoded_text \<Rightarrow>
          (let pad_amount = 8 - (length encoded_text mod 8);
               padded = encoded_text @ replicate pad_amount False;
               pad_info = format_08b pad_amount
           in Inr (pad_info @ padded)))"

text \<open>\<open>__encoded_to_bin\<close>: one integer for each chunk of eight bits (the last chunk may be shorter).\<close>

function encoded_to_bin :: "bool list \<Rightarrow> nat list" where
  "encoded_to_bin encoded_text =
     (if encoded_text = [] then []
      else int2 (take 8 encoded_text) # encoded_to_bin (drop 8 encoded_text))"
  by pat_completeness auto
termination
  by (relation "measure length") auto

declare encoded_to_bin.simps [simp del]

text \<open>\<open>bytes(bin_array)\<close>: raises ValueError unless every integer is in \<open>range(256)\<close>.\<close>

definition bytes :: "nat list \<Rightarrow> error + 8 word list" where
  "bytes bin_array =
     (if \<forall>n \<in> set bin_array. n < 256 then Inr (map of_nat bin_array) else Inl ValueError)"

text \<open>
  The lines of \<open>compress\<close> that build the two tables from the frequency dictionary:
  \<open>__build_heap\<close>, \<open>__build_tree\<close>, the pop of the root, \<open>__build_codes\<close>.
\<close>

definition build_tables :: "('a \<times> nat) list \<Rightarrow> 'a huffman_coding \<Rightarrow> error + 'a huffman_coding" where
  "build_tables freq_dict s =
     (let s1 = build_heap freq_dict s
      in case build_tree s1 of
           Inl e \<Rightarrow> Inl e
         | Inr s2 \<Rightarrow>
             (case heappop (min_heap s2) of
                Inl e \<Rightarrow> Inl e
              | Inr (root, heap') \<Rightarrow> Inr (build_codes (Some root) [] (s2\<lparr>min_heap := heap'\<rparr>))))"

text \<open>
  \<open>compress\<close>, from the text read from the file (with trailing whitespace stripped) to
  the bytes written to the output file. The object keeps its tables for \<open>decompress\<close>.
\<close>

definition compress :: "'a huffman_coding \<Rightarrow> 'a list \<Rightarrow> error + ('a huffman_coding \<times> 8 word list)" where
  "compress s text =
     (let freq_dict = make_freq_dict text
      in case build_tables freq_dict s of
           Inl e \<Rightarrow> Inl e
         | Inr s3 \<Rightarrow>
             (case encode_text s3 text of
                Inl e \<Rightarrow> Inl e
              | Inr encoded_text \<Rightarrow>
                  (case bytes (encoded_to_bin encoded_text) of
                     Inl e \<Rightarrow> Inl e
                   | Inr bin_bytes \<Rightarrow> Inr (s3, bin_bytes))))"

text \<open>
  A Python slice \<open>s[a:b]\<close>: a negative bound counts from the end, and both bounds are
  clipped to the length.
\<close>

definition slice_bound :: "int \<Rightarrow> nat \<Rightarrow> nat" where
  "slice_bound i n = (if i < 0 then nat (max (i + int n) 0) else min (nat i) n)"

definition slice :: "'b list \<Rightarrow> int \<Rightarrow> int \<Rightarrow> 'b list" where
  "slice xs a b = drop (slice_bound a (length xs)) (take (slice_bound b (length xs)) xs)"

text \<open>
  \<open>__remove_pad\<close>: \<open>int(bit_string[:8], 2)\<close> raises ValueError on the empty string;
  the slice is \<open>bit_string[8:-pad_info]\<close>, and \<open>-0\<close> is \<open>0\<close>.
\<close>

definition remove_pad :: "bool list \<Rightarrow> error + bool list" where
  "remove_pad bit_string =
     (if take 8 bit_string = [] then Inl ValueError
      else (let pad_info = int2 (take 8 bit_string)
            in Inr (slice bit_string 8 (- int pad_info))))"

text \<open>
  The loop of \<open>__decode_text\<close>; its state is \<open>decoded_text\<close> and \<open>curr_bits\<close>, and
  the function returns both as they are when the loop ends.
\<close>

fun decode_loop :: "(bool list \<rightharpoonup> 'a) \<Rightarrow> bool list \<Rightarrow> 'a list \<Rightarrow> bool list \<Rightarrow> 'a list \<times> bool list" where
  "decode_loop rev_codes [] decoded_text curr_bits = (decoded_text, curr_bits)"
| "decode_loop rev_codes (b # bits) decoded_text curr_bits =
     (let curr_bits' = curr_bits @ [b]
      in case rev_codes curr_bits' of
           Some c \<Rightarrow> decode_loop rev_codes bits (decoded_text @ [c]) []
         | None \<Rightarrow> decode_loop rev_codes bits decoded_text curr_bits')"

text \<open>\<open>__decode_text\<close> returns \<open>decoded_text\<close>; what is left in \<open>curr_bits\<close> is dropped.\<close>

definition decode_text :: "'a huffman_coding \<Rightarrow> bool list \<Rightarrow> 'a list" where
  "decode_text s compressed_text =
     fst (decode_loop (reverse_codes_hash_table s) compressed_text [] [])"

text \<open>The loop of \<open>decompress\<close> that reads the file: eight bits for each byte.\<close>

definition bit_string_of :: "8 word list \<Rightarrow> bool list" where
  "bit_string_of bs = concat (map (\<lambda>byte. format_08b (unat byte)) bs)"

text \<open>\<open>decompress\<close>, from the bytes of the compressed file to the text written.\<close>

definition decompress :: "'a huffman_coding \<Rightarrow> 8 word list \<Rightarrow> error + 'a list" where
  "decompress s file =
     (case remove_pad (bit_string_of file) of
        Inl e \<Rightarrow> Inl e
      | Inr compressed_text \<Rightarrow> Inr (decode_text s compressed_text))"

text \<open>
  The script at the end of the module: a fresh object compresses the text, then
  decompresses the file it wrote.
\<close>

definition compress_then_decompress :: "'a list \<Rightarrow> error + 'a list" where
  "compress_then_decompress text =
     (case compress init text of
        Inl e \<Rightarrow> Inl e
      | Inr (h, file) \<Rightarrow> decompress h file)"

section \<open>Trees\<close>

text \<open>
  The shape \<open>__build_heap\<close> and \<open>__build_tree\<close> give every node: a node with a key
  is a leaf (no children); a node without a key (an internal node) has two children,
  and its frequency is the sum of theirs.
\<close>

fun tree_inv :: "'a node \<Rightarrow> bool" where
  "tree_inv (Node k f l r) =
     (case k of
        Some c \<Rightarrow> l = None \<and> r = None
      | None \<Rightarrow>
          (case l of
             None \<Rightarrow> False
           | Some ln \<Rightarrow>
               (case r of
                  None \<Rightarrow> False
                | Some rn \<Rightarrow> f = freq ln + freq rn \<and> tree_inv ln \<and> tree_inv rn)))"

text \<open>
  The keys \<open>__build_codes\<close> meets below a node, each with the code it stores for it
  when the node itself is reached with \<open>bin_code\<close>, in the order of the traversal.
\<close>

fun leaf_codes :: "'a node \<Rightarrow> bool list \<Rightarrow> ('a \<times> bool list) list" where
  "leaf_codes (Node k f l r) bin_code =
     (case k of None \<Rightarrow> [] | Some c \<Rightarrow> [(c, bin_code)])
     @ (case l of None \<Rightarrow> [] | Some ln \<Rightarrow> leaf_codes ln (bin_code @ [False]))
     @ (case r of None \<Rightarrow> [] | Some rn \<Rightarrow> leaf_codes rn (bin_code @ [True]))"

text \<open>The keys below a node with their frequencies.\<close>

fun leaf_freqs :: "'a node \<Rightarrow> ('a \<times> nat) list" where
  "leaf_freqs (Node k f l r) =
     (case k of None \<Rightarrow> [] | Some c \<Rightarrow> [(c, f)])
     @ (case l of None \<Rightarrow> [] | Some ln \<Rightarrow> leaf_freqs ln)
     @ (case r of None \<Rightarrow> [] | Some rn \<Rightarrow> leaf_freqs rn)"

section \<open>Bit strings and bytes\<close>

lemma int2_append: "int2 (bs @ [b]) = 2 * int2 bs + (if b then 1 else 0)"
  by (simp add: int2_def)

lemma int2_replicate_False: "int2 (replicate k False @ bs) = int2 bs"
proof (induction bs rule: rev_induct)
  case Nil
  show ?case by (induction k) (simp_all add: int2_def replicate_append_same)
next
  case (snoc b bs)
  have "int2 (replicate k False @ bs @ [b]) = int2 ((replicate k False @ bs) @ [b])" by simp
  also have "\<dots> = int2 (bs @ [b])" unfolding int2_append snoc.IH ..
  finally show ?case .
qed

lemma int2_bin_digits: "int2 (bin_digits n) = n"
proof (induction n rule: bin_digits.induct)
  case (1 n)
  show ?case
  proof (cases "n < 2")
    case True
    then show ?thesis by (subst bin_digits.simps) (auto simp: int2_def)
  next
    case False
    then have "int2 (bin_digits n) = int2 (bin_digits (n div 2) @ [n mod 2 = 1])"
      by (subst bin_digits.simps) simp
    also have "\<dots> = 2 * (n div 2) + (if n mod 2 = 1 then 1 else 0)"
      using "1.IH" False by (simp add: int2_append)
    also have "\<dots> = n" by presburger
    finally show ?thesis .
  qed
qed

lemma int2_format_08b: "int2 (format_08b n) = n"
  by (simp add: format_08b_def int2_replicate_False int2_bin_digits)

lemma length_bin_digits: "n < 2 ^ k \<Longrightarrow> 0 < k \<Longrightarrow> length (bin_digits n) \<le> k"
proof (induction n arbitrary: k rule: bin_digits.induct)
  case (1 n)
  show ?case
  proof (cases "n < 2")
    case True
    then show ?thesis using "1.prems" by (subst bin_digits.simps) simp
  next
    case False
    then obtain j where k: "k = Suc j" "0 < j" using "1.prems"
      by (cases k; cases "k - 1") auto
    have "n div 2 < 2 ^ j" using "1.prems" k by auto
    then have "length (bin_digits (n div 2)) \<le> j" using "1.IH" False k by simp
    then show ?thesis using False k by (subst bin_digits.simps) simp
  qed
qed

lemma length_format_08b: "n < 256 \<Longrightarrow> length (format_08b n) = 8"
  using length_bin_digits [of n 8] by (simp add: format_08b_def)

lemma int2_zero_set: "int2 bs = 0 \<Longrightarrow> \<forall>b \<in> set bs. b = False"
  by (induction bs rule: rev_induct) (auto simp: int2_append split: if_splits)

lemma int2_zero: "int2 bs = 0 \<Longrightarrow> bs = replicate (length bs) False"
  using int2_zero_set [of bs] replicate_length_same [of bs False] by simp

lemma bin_digits_int2:
  "bs \<noteq> [] \<Longrightarrow>
   replicate (length bs - length (bin_digits (int2 bs))) False @ bin_digits (int2 bs) = bs
   \<and> length (bin_digits (int2 bs)) \<le> length bs"
proof (induction bs rule: rev_induct)
  case Nil
  then show ?case by simp
next
  case (snoc b bs)
  let ?m = "int2 bs"
  let ?c = "if b then 1 else 0 :: nat"
  show ?case
  proof (cases "?m = 0")
    case True
    then have bs: "bs = replicate (length bs) False" by (rule int2_zero)
    have "bin_digits (int2 (bs @ [b])) = [b]"
      using True by (subst bin_digits.simps) (simp add: int2_append)
    then show ?thesis using bs by simp
  next
    case False
    then have ne: "bs \<noteq> []" by (auto simp: int2_def)
    have d: "bin_digits (int2 (bs @ [b])) = bin_digits ?m @ [b]"
      using False by (subst bin_digits.simps) (auto simp: int2_append)
    from snoc.IH [OF ne] show ?thesis unfolding d by (auto simp: Suc_diff_le)
  qed
qed

lemma format_08b_int2: "length bs = 8 \<Longrightarrow> format_08b (int2 bs) = bs"
  using bin_digits_int2 [of bs] by (cases bs) (auto simp: format_08b_def)

lemma int2_less: "int2 bs < 2 ^ length bs"
  by (induction bs rule: rev_induct) (auto simp: int2_append int2_def)

lemma unat_byte: "n < 256 \<Longrightarrow> unat (of_nat n :: 8 word) = n"
  by (simp add: unat_of_nat)

lemma encoded_to_bin_Nil [simp]: "encoded_to_bin [] = []"
  by (simp add: encoded_to_bin.simps)

lemma encoded_to_bin_bound: "n \<in> set (encoded_to_bin bs) \<Longrightarrow> n < 256"
proof (induction bs rule: encoded_to_bin.induct)
  case (1 bs)
  show ?case
  proof (cases "bs = []")
    case True
    then show ?thesis using "1.prems" by simp
  next
    case False
    have "int2 (take 8 bs) < 2 ^ length (take 8 bs)" by (rule int2_less)
    also have "\<dots> \<le> 2 ^ 8" by (rule power_increasing) simp_all
    finally have "int2 (take 8 bs) < 256" by simp
    then show ?thesis
      using "1.prems" "1.IH" False by (subst (asm) encoded_to_bin.simps) auto
  qed
qed

lemma bytes_encoded_to_bin:
  "bytes (encoded_to_bin bs) = Inr (map of_nat (encoded_to_bin bs))"
  by (simp add: bytes_def encoded_to_bin_bound)

lemma encoded_to_bin_chunk:
  "length chunk = 8 \<Longrightarrow> encoded_to_bin (chunk @ bs) = int2 chunk # encoded_to_bin bs"
  by (subst encoded_to_bin.simps) auto

lemma bit_string_of_Cons:
  "bit_string_of (byte # bs) = format_08b (unat byte) @ bit_string_of bs"
  by (simp add: bit_string_of_def)

lemma bit_string_of_encoded_to_bin:
  "length bs mod 8 = 0 \<Longrightarrow> bit_string_of (map of_nat (encoded_to_bin bs)) = bs"
proof (induction bs rule: encoded_to_bin.induct)
  case (1 bs)
  show ?case
  proof (cases "bs = []")
    case True
    then show ?thesis by (simp add: bit_string_of_def)
  next
    case False
    with "1.prems" have len: "8 \<le> length bs" by (cases "length bs < 8") auto
    then have l8: "length (take 8 bs) = 8" by simp
    have "int2 (take 8 bs) < 2 ^ length (take 8 bs)" by (rule int2_less)
    then have b: "int2 (take 8 bs) < 256" using l8 by simp
    have m: "length (drop 8 bs) mod 8 = 0"
      using "1.prems" len by simp presburger
    have "bit_string_of (map of_nat (encoded_to_bin bs))
            = format_08b (int2 (take 8 bs)) @ bit_string_of (map of_nat (encoded_to_bin (drop 8 bs)))"
      using False b by (subst encoded_to_bin.simps) (simp add: bit_string_of_Cons unat_byte)
    also have "\<dots> = take 8 bs @ drop 8 bs"
      using "1.IH" [OF False m] l8 by (simp add: format_08b_int2)
    finally show ?thesis by simp
  qed
qed

lemma format_08b_0: "format_08b 0 = replicate 8 False"
  by code_simp

lemma slice_8_0: "slice xs 8 0 = []"
  by (simp add: slice_def slice_bound_def)

lemma slice_8_neg: "0 < p \<Longrightarrow> slice xs 8 (- int p) = drop 8 (take (length xs - p) xs)"
  by (auto simp: slice_def slice_bound_def nat_diff_distrib' max_def min_def)

lemma remove_pad_padded:
  assumes "p < 256" "0 < p"
  shows "remove_pad (format_08b p @ enc @ replicate p False) = Inr enc"
proof -
  let ?e = "format_08b p @ enc @ replicate p False"
  have l: "length (format_08b p) = 8" using assms by (simp add: length_format_08b)
  then have t: "take 8 ?e = format_08b p" by simp
  have "slice ?e 8 (- int p) = drop 8 (take (length ?e - p) ?e)"
    using assms by (simp add: slice_8_neg)
  also have "take (length ?e - p) ?e = format_08b p @ enc" using l by simp
  also have "drop 8 (format_08b p @ enc) = enc" using l by simp
  finally show ?thesis
    using l unfolding remove_pad_def t by (auto simp: Let_def int2_format_08b)
qed

section \<open>Encoding and pad removal\<close>

lemma encode_text_Inr:
  "encode_text s text = Inr e \<Longrightarrow>
   \<exists>enc. encode_chars (codes_hash_table s) text [] = Inr enc
     \<and> e = format_08b (8 - length enc mod 8) @ enc @ replicate (8 - length enc mod 8) False"
  by (auto simp: encode_text_def Let_def split: sum.splits)

lemma compress_Inr:
  assumes "compress s text = Inr (s', file)"
  shows "\<exists>e. encode_text s' text = Inr e \<and> file = map of_nat (encoded_to_bin e)"
  using assms
  by (auto simp: compress_def Let_def bytes_encoded_to_bin split: sum.splits prod.splits)

lemma compress_header:
  assumes "compress s text = Inr (s', file)"
      and "encode_chars (codes_hash_table s') text [] = Inr enc"
  shows "file = of_nat (8 - length enc mod 8)
            # map of_nat (encoded_to_bin (enc @ replicate (8 - length enc mod 8) False))"
proof -
  let ?p = "8 - length enc mod 8"
  from compress_Inr [OF assms(1)] obtain e where
    e: "encode_text s' text = Inr e" and f: "file = map of_nat (encoded_to_bin e)" by blast
  from encode_text_Inr [OF e] assms(2)
  have e': "e = format_08b ?p @ enc @ replicate ?p False" by auto
  have "length (format_08b ?p) = 8" by (rule length_format_08b) simp
  then have "encoded_to_bin e = int2 (format_08b ?p) # encoded_to_bin (enc @ replicate ?p False)"
    unfolding e' by (rule encoded_to_bin_chunk)
  then show ?thesis using f by (simp add: int2_format_08b)
qed

lemma length_padded: "(16 + n - n mod 8) mod 8 = (0::nat)"
  by presburger

lemma compress_bit_string:
  assumes "compress s text = Inr (s', file)"
      and "encode_chars (codes_hash_table s') text [] = Inr enc"
  shows "bit_string_of file
           = format_08b (8 - length enc mod 8) @ enc @ replicate (8 - length enc mod 8) False"
proof -
  let ?p = "8 - length enc mod 8"
  from compress_Inr [OF assms(1)] obtain e where
    e: "encode_text s' text = Inr e" and f: "file = map of_nat (encoded_to_bin e)" by blast
  from encode_text_Inr [OF e] assms(2)
  have e': "e = format_08b ?p @ enc @ replicate ?p False" by auto
  have "length (format_08b ?p) = 8" by (rule length_format_08b) simp
  then have "length e mod 8 = 0" unfolding e' by (simp add: length_padded)
  then show ?thesis unfolding f using e' by (simp add: bit_string_of_encoded_to_bin)
qed

text \<open>
  C9. When the header byte is 0, \<open>decompress\<close> returns the empty text whatever the
  payload bytes are: \<open>__remove_pad\<close> takes the slice \<open>bit_string[8:-0]\<close>, which is
  \<open>bit_string[8:0]\<close>, the empty string.
\<close>

theorem header_zero_decodes_empty: "decompress s (0 # payload) = Inr []"
proof -
  let ?bits = "bit_string_of (0 # payload)"
  have t: "take 8 ?bits = replicate 8 False"
    by (simp add: bit_string_of_Cons format_08b_0)
  have "int2 (replicate 8 False) = int2 (replicate 8 False @ [])" by simp
  also have "\<dots> = 0" unfolding int2_replicate_False by (simp add: int2_def)
  finally have "remove_pad ?bits = Inr []"
    unfolding remove_pad_def t by (simp add: slice_8_0)
  then show ?thesis by (simp add: decompress_def decode_text_def)
qed

text \<open>
  C5 (as amended). The header byte of every stream that \<open>compress\<close> produces, read as
  an unsigned 8-bit value, lies between 1 and 8 inclusive: it is \<open>8 - (len mod 8)\<close>
  for the length of the concatenated codes, so it is 8, not 0, when that length is a
  multiple of 8.
\<close>

theorem header_byte_range:
  assumes "compress s text = Inr (s', file)"
  shows "file \<noteq> [] \<and> 1 \<le> unat (hd file) \<and> unat (hd file) \<le> 8"
proof -
  from compress_Inr [OF assms] obtain e where e: "encode_text s' text = Inr e" by blast
  from encode_text_Inr [OF e] obtain enc where
    enc: "encode_chars (codes_hash_table s') text [] = Inr enc" by blast
  let ?p = "8 - length enc mod 8"
  have "unat (of_nat ?p :: 8 word) = ?p" by (rule unat_byte) simp
  then show ?thesis
    unfolding compress_header [OF assms enc] by simp
qed

text \<open>
  C4. When the concatenated codes of the text have a length that is a multiple of 8,
  \<open>__encode_text\<close> still appends eight pad bits and writes 8 in the header, the header
  byte of the stream is 8, and \<open>__remove_pad\<close> strips exactly these eight bits: what
  \<open>__decode_text\<close> scans is the concatenated codes.
\<close>

theorem pad_boundary_case:
  assumes "compress s text = Inr (s', file)"
      and "encode_chars (codes_hash_table s') text [] = Inr enc"
      and "length enc mod 8 = 0"
  shows "encode_text s' text = Inr (format_08b 8 @ enc @ replicate 8 False)
       \<and> unat (hd file) = 8
       \<and> remove_pad (bit_string_of file) = Inr enc
       \<and> decompress s' file = Inr (decode_text s' enc)"
proof -
  have p: "8 - length enc mod 8 = 8" using assms(3) by simp
  have 1: "encode_text s' text = Inr (format_08b 8 @ enc @ replicate 8 False)"
    using assms(2,3) by (simp add: encode_text_def)
  have "unat (of_nat 8 :: 8 word) = 8" by simp
  then have 2: "unat (hd file) = 8"
    using compress_header [OF assms(1,2)] unfolding p by simp
  have "bit_string_of file = format_08b 8 @ enc @ replicate 8 False"
    using compress_bit_string [OF assms(1,2)] unfolding p .
  then have 3: "remove_pad (bit_string_of file) = Inr enc"
    by (simp add: remove_pad_padded)
  from 1 2 3 show ?thesis by (simp add: decompress_def)
qed

theorem header_byte_range_witness:
  "(case compress init ''ab'' of
      Inl e \<Rightarrow> False
    | Inr (s', file) \<Rightarrow> file = [6, 64] \<and> 1 \<le> unat (hd file) \<and> unat (hd file) \<le> 8)"
proof -
  have ev: "(case compress init ''ab'' of Inl e \<Rightarrow> False | Inr (s', file) \<Rightarrow> file = [6, 64])"
    by code_simp
  then obtain s' f where c: "compress init ''ab'' = Inr (s', f)"
    by (cases "compress init ''ab''") auto
  from header_byte_range [OF c] ev c show ?thesis by simp
qed

text \<open>
  C5 as stated fails: for the text \<open>abababab\<close> the codes are one bit each, the
  concatenated codes are 8 bits long, and the header byte is 8, outside 0 to 7.
\<close>

theorem header_byte_range_counterexample:
  "(case compress init ''abababab'' of
      Inl e \<Rightarrow> False
    | Inr (s', file) \<Rightarrow> unat (hd file) = 8 \<and> \<not> unat (hd file) \<le> 7)"
  by code_simp

theorem pad_boundary_case_witness:
  "(case compress init ''abababab'' of
      Inl e \<Rightarrow> False
    | Inr (s', file) \<Rightarrow>
        (case encode_chars (codes_hash_table s') ''abababab'' [] of
           Inl e \<Rightarrow> False
         | Inr enc \<Rightarrow>
             length enc mod 8 = 0
           \<and> encode_text s' ''abababab'' = Inr (format_08b 8 @ enc @ replicate 8 False)
           \<and> unat (hd file) = 8
           \<and> remove_pad (bit_string_of file) = Inr enc
           \<and> decompress s' file = Inr (decode_text s' enc)))"
proof -
  have ev: "(case compress init ''abababab'' of
      Inl e \<Rightarrow> False
    | Inr (s', file) \<Rightarrow>
        (case encode_chars (codes_hash_table s') ''abababab'' [] of
           Inl e \<Rightarrow> False
         | Inr enc \<Rightarrow> length enc mod 8 = 0))"
    by code_simp
  then obtain s' f where c: "compress init ''abababab'' = Inr (s', f)"
    by (cases "compress init ''abababab''") auto
  with ev obtain enc where
    e: "encode_chars (codes_hash_table s') ''abababab'' [] = Inr enc" and m: "length enc mod 8 = 0"
    by (cases "encode_chars (codes_hash_table s') ''abababab'' []") auto
  from pad_boundary_case [OF c e m] c e m show ?thesis by simp
qed

section \<open>A text of one repeated character\<close>

lemma fold_counter_add_replicate:
  "fold counter_add (replicate n c) [(c, m)] = [(c, m + n)]"
  by (induction n arbitrary: m) auto

lemma make_freq_dict_replicate: "0 < n \<Longrightarrow> make_freq_dict (replicate n c) = [(c, n)]"
  using fold_counter_add_replicate [of "n - 1" c 1]
  by (cases n) (auto simp: make_freq_dict_def counter_def)

lemma heappush_Nil: "heappush [] x = [x]"
  by (simp add: heappush_def siftdown_def siftdown_loop.simps)

lemma heappop_single: "heappop [x] = Inr (x, [])"
  by (simp add: heappop_def)

lemma encode_chars_replicate:
  "codes c = Some [] \<Longrightarrow> encode_chars codes (replicate n c) [] = Inr []"
  by (induction n) auto

lemma encoded_to_bin_single: "encoded_to_bin (format_08b 8 @ replicate 8 False) = [8, 0]"
  by code_simp

text \<open>
  C10. For every character \<open>c\<close> and every \<open>n \<ge> 1\<close>, compressing \<open>n\<close> copies of \<open>c\<close>
  gives the same two bytes, 8 and 0, and leaves the same tables (the code of \<open>c\<close> is
  the empty string); so the result is the same for every length of the text.
\<close>

theorem single_symbol_stream:
  assumes "0 < n" and "0 < m"
  shows "compress init (replicate n c)
           = Inr (\<lparr>min_heap = [], codes_hash_table = [c \<mapsto> []],
                   reverse_codes_hash_table = [[] \<mapsto> c]\<rparr>, [8, 0])
       \<and> compress init (replicate m c) = compress init (replicate n c)"
proof -
  have "compress init (replicate k c)
           = Inr (\<lparr>min_heap = [], codes_hash_table = [c \<mapsto> []],
                   reverse_codes_hash_table = [[] \<mapsto> c]\<rparr>, [8, 0])" if "0 < k" for k
    using that
    by (simp add: compress_def build_tables_def make_freq_dict_replicate init_def heappush_Nil new_node_def
        build_tree.simps heappop_single encode_text_def encode_chars_replicate
        encoded_to_bin_single bytes_def)
  then show ?thesis using assms by simp
qed

theorem single_symbol_stream_witness:
  "(0::nat) < 4 \<and> (0::nat) < 1
   \<and> compress init (replicate 4 CHR ''a'')
       = Inr (\<lparr>min_heap = [], codes_hash_table = [CHR ''a'' \<mapsto> []],
               reverse_codes_hash_table = [[] \<mapsto> CHR ''a'']\<rparr>, [8, 0])
   \<and> compress init (replicate 1 CHR ''a'') = compress init (replicate 4 CHR ''a'')"
  using single_symbol_stream [of 4 1 "CHR ''a''"] by simp

text \<open>
  C1: the round trip fails for the text \<open>a\<close>: the code of the only character is the
  empty string, the stream is the bytes 8 and 0, and \<open>decompress\<close> returns the empty
  text.
\<close>

theorem roundtrip_fails_single_char:
  "compress_then_decompress ''a'' = Inr [] \<and> compress_then_decompress ''a'' \<noteq> Inr ''a''"
  by code_simp

text \<open>
  C2: for the text \<open>aaaa\<close> the code table gives the character the empty code, not a
  code of one bit, and decompressing the stream returns the empty text.
\<close>

theorem single_symbol_empty_code:
  "(case compress init ''aaaa'' of
      Inl e \<Rightarrow> False
    | Inr (s', file) \<Rightarrow>
        codes_hash_table s' CHR ''a'' = Some [] \<and> decompress s' file = Inr [])
   \<and> compress_then_decompress ''aaaa'' \<noteq> Inr ''aaaa''"
  by code_simp

section \<open>What the decoding loop leaves\<close>

lemma decode_loop_trailing:
  "decode_loop rev_codes bits dec cur = (out, cand) \<Longrightarrow>
   (cand = cur @ bits \<and> out = dec)
   \<or> (\<exists>pre. bits = pre @ cand \<and> decode_loop rev_codes pre dec cur = (out, []))"
proof (induction bits arbitrary: dec cur)
  case Nil
  then show ?case by simp
next
  case (Cons b bits)
  show ?case
  proof (cases "rev_codes (cur @ [b])")
    case None
    with Cons.prems have "decode_loop rev_codes bits dec (cur @ [b]) = (out, cand)" by simp
    from Cons.IH [OF this] show ?thesis
    proof
      assume "cand = (cur @ [b]) @ bits \<and> out = dec"
      then show ?thesis by simp
    next
      assume "\<exists>pre. bits = pre @ cand \<and> decode_loop rev_codes pre dec (cur @ [b]) = (out, [])"
      then obtain pre where "bits = pre @ cand"
        "decode_loop rev_codes pre dec (cur @ [b]) = (out, [])" by blast
      then have "b # bits = (b # pre) @ cand \<and> decode_loop rev_codes (b # pre) dec cur = (out, [])"
        using None by simp
      then show ?thesis by blast
    qed
  next
    case (Some c)
    with Cons.prems have "decode_loop rev_codes bits (dec @ [c]) [] = (out, cand)" by simp
    from Cons.IH [OF this] show ?thesis
    proof
      assume "cand = [] @ bits \<and> out = dec @ [c]"
      then have "b # bits = [b] @ cand \<and> decode_loop rev_codes [b] dec cur = (out, [])"
        using Some by simp
      then show ?thesis by blast
    next
      assume "\<exists>pre. bits = pre @ cand \<and> decode_loop rev_codes pre (dec @ [c]) [] = (out, [])"
      then obtain pre where "bits = pre @ cand"
        "decode_loop rev_codes pre (dec @ [c]) [] = (out, [])" by blast
      then have "b # bits = (b # pre) @ cand \<and> decode_loop rev_codes (b # pre) dec cur = (out, [])"
        using Some by simp
      then show ?thesis by blast
    qed
  qed
qed

lemma decode_loop_unmatched:
  "decode_loop rev_codes bits dec cur = (out, cand) \<Longrightarrow> cur = [] \<or> rev_codes cur = None \<Longrightarrow>
   cand = [] \<or> rev_codes cand = None"
proof (induction bits arbitrary: dec cur)
  case Nil
  then show ?case by auto
next
  case (Cons b bits)
  show ?case
  proof (cases "rev_codes (cur @ [b])")
    case None
    with Cons.prems have "decode_loop rev_codes bits dec (cur @ [b]) = (out, cand)" by simp
    from Cons.IH [OF this] None show ?thesis by simp
  next
    case (Some c)
    with Cons.prems have "decode_loop rev_codes bits (dec @ [c]) [] = (out, cand)" by simp
    from Cons.IH [OF this] show ?thesis by simp
  qed
qed

text \<open>
  C3 (as amended). No path of \<open>decompress\<close> checks what the decoding loop leaves in
  \<open>curr_bits\<close>. When the bit string, after pad removal, ends with a non-empty
  candidate that matches no code, \<open>decompress\<close> raises no error: it returns the text
  decoded from the bits before that candidate, and the candidate is dropped.
\<close>

theorem decode_drops_trailing_bits:
  assumes "remove_pad (bit_string_of file) = Inr bits"
      and "decode_loop (reverse_codes_hash_table s) bits [] [] = (out, cand)"
      and "cand \<noteq> []"
  shows "decompress s file = Inr out
       \<and> reverse_codes_hash_table s cand = None
       \<and> (\<exists>pre. bits = pre @ cand
              \<and> decode_loop (reverse_codes_hash_table s) pre [] [] = (out, []))"
proof -
  have 1: "decompress s file = Inr out"
    using assms(1,2) by (simp add: decompress_def decode_text_def)
  have 2: "reverse_codes_hash_table s cand = None"
    using decode_loop_unmatched [OF assms(2)] assms(3) by simp
  from decode_loop_trailing [OF assms(2)]
  have 3: "\<exists>pre. bits = pre @ cand
              \<and> decode_loop (reverse_codes_hash_table s) pre [] [] = (out, [])"
  proof
    assume "cand = [] @ bits \<and> out = []"
    then have "bits = [] @ cand \<and> decode_loop (reverse_codes_hash_table s) [] [] [] = (out, [])"
      by simp
    then show ?thesis by blast
  qed
  from 1 2 3 show ?thesis by simp
qed

theorem decode_drops_trailing_bits_witness:
  "(case compress init ''AABBBCCCC'' of
      Inl e \<Rightarrow> False
    | Inr (s, file) \<Rightarrow>
        remove_pad (bit_string_of [9, 175, 192]) = Inr [True, False, True, False, True, True, True]
      \<and> decode_loop (reverse_codes_hash_table s) [True, False, True, False, True, True, True] [] []
          = (''AAB'', [True])
      \<and> [True] \<noteq> []
      \<and> decompress s [9, 175, 192] = Inr ''AAB''
      \<and> reverse_codes_hash_table s [True] = None)"
proof -
  have ev: "(case compress init ''AABBBCCCC'' of
      Inl e \<Rightarrow> False
    | Inr (s, file) \<Rightarrow>
        remove_pad (bit_string_of [9, 175, 192]) = Inr [True, False, True, False, True, True, True]
      \<and> decode_loop (reverse_codes_hash_table s) [True, False, True, False, True, True, True] [] []
          = (''AAB'', [True]))"
    by code_simp
  then obtain s f where c: "compress init ''AABBBCCCC'' = Inr (s, f)"
    by (cases "compress init ''AABBBCCCC''") auto
  with ev have r: "remove_pad (bit_string_of [9, 175, 192])
                     = Inr [True, False, True, False, True, True, True]"
    and d: "decode_loop (reverse_codes_hash_table s) [True, False, True, False, True, True, True] [] []
          = (''AAB'', [True])" by simp_all
  from decode_drops_trailing_bits [OF r d] c r d show ?thesis by simp
qed

text \<open>
  C3 as stated fails. The text \<open>AABBBCCCC\<close> compresses to the bytes 2, 175, 192. With
  the header byte set to 9, the bits left after pad removal end with the candidate
  \<open>1\<close>, which is no code; \<open>decompress\<close> raises nothing and returns \<open>AAB\<close>.
\<close>

theorem corrupt_stream_counterexample:
  "(case compress init ''AABBBCCCC'' of
      Inl e \<Rightarrow> False
    | Inr (s, file) \<Rightarrow>
        file = [2, 175, 192]
      \<and> remove_pad (bit_string_of [9, 175, 192]) = Inr [True, False, True, False, True, True, True]
      \<and> snd (decode_loop (reverse_codes_hash_table s)
               [True, False, True, False, True, True, True] [] []) = [True]
      \<and> reverse_codes_hash_table s [True] = None
      \<and> decompress s [9, 175, 192] = Inr ''AAB'')"
  by code_simp

section \<open>The heap operations keep the nodes\<close>

lemma mset_update_move:
  assumes "i < length xs" "j < length xs" "i \<noteq> j"
  shows "mset (xs[i := xs ! j, j := x]) = mset (xs[i := x])"
  using assms by (simp add: mset_update nth_list_update) 

lemma mset_siftdown_loop:
  "pos < length heap \<Longrightarrow>
   mset (siftdown_loop heap startpos newitem pos) = mset (heap[pos := newitem])"
proof (induction heap startpos newitem pos rule: siftdown_loop.induct)
  case (1 heap startpos newitem pos)
  let ?pp = "(pos - 1) div 2"
  show ?case
  proof (cases "pos > startpos \<and> node_lt newitem (heap ! ?pp)")
    case True
    then have pp: "?pp < pos" by auto
    have "mset (siftdown_loop heap startpos newitem pos)
            = mset (siftdown_loop (heap[pos := heap ! ?pp]) startpos newitem ?pp)"
      using True by (subst siftdown_loop.simps) (simp add: Let_def)
    also have "\<dots> = mset (heap[pos := heap ! ?pp, ?pp := newitem])"
      using "1.IH" [OF _ refl refl] True pp "1.prems" by simp
    also have "\<dots> = mset (heap[pos := newitem])"
      using pp "1.prems" by (intro mset_update_move) auto
    finally show ?thesis .
  next
    case False
    then show ?thesis by (subst siftdown_loop.simps) (auto simp: Let_def)
  qed
qed

lemma mset_siftdown: "pos < length heap \<Longrightarrow> mset (siftdown heap startpos pos) = mset heap"
  by (simp add: siftdown_def mset_siftdown_loop)

lemma mset_siftup_loop:
  "siftup_loop heap pos childpos = (h, p) \<Longrightarrow> pos < length heap \<Longrightarrow> pos < childpos \<Longrightarrow>
   p < length heap \<and> mset (h[p := x]) = mset (heap[pos := x])"
proof (induction heap pos childpos arbitrary: h p rule: siftup_loop.induct)
  case (1 heap pos childpos)
  show ?case
  proof (cases "childpos < length heap")
    case False
    then show ?thesis using "1.prems" by (subst (asm) siftup_loop.simps) simp
  next
    case True
    define c where "c = (if childpos + 1 < length heap
                            \<and> \<not> node_lt (heap ! childpos) (heap ! (childpos + 1))
                          then childpos + 1 else childpos)"
    have c: "c < length heap" "pos < c" "c \<noteq> pos"
      using True "1.prems" by (auto simp: c_def)
    have "siftup_loop heap pos childpos = siftup_loop (heap[pos := heap ! c]) c (2 * c + 1)"
      unfolding c_def by (subst siftup_loop.simps) (simp only: True if_True Let_def)
    with "1.prems"(1) have "siftup_loop (heap[pos := heap ! c]) c (2 * c + 1) = (h, p)"
      by simp
    from "1.IH" [OF True refl c_def refl this] c
    have "p < length heap" "mset (h[p := x]) = mset (heap[pos := heap ! c, c := x])" by simp_all
    moreover have "mset (heap[pos := heap ! c, c := x]) = mset (heap[pos := x])"
      using c "1.prems" by (intro mset_update_move) auto
    ultimately show ?thesis by simp
  qed
qed

lemma mset_siftup: "pos < length heap \<Longrightarrow> mset (siftup heap pos) = mset heap"
proof -
  assume pos: "pos < length heap"
  obtain h p where hp: "siftup_loop heap pos (2 * pos + 1) = (h, p)"
    by (cases "siftup_loop heap pos (2 * pos + 1)")
  from mset_siftup_loop [OF hp pos, of "heap ! pos"] length_siftup_loop_eq [OF hp]
  have "p < length h" "mset (h[p := heap ! pos]) = mset heap" by simp_all
  then show ?thesis unfolding siftup_def Let_def hp by (simp add: mset_siftdown)
qed

lemma mset_heappush: "mset (heappush heap x) = add_mset x (mset heap)"
  by (simp add: heappush_def mset_siftdown)

lemma heappop_Inr:
  "heap \<noteq> [] \<Longrightarrow> \<exists>x heap'. heappop heap = Inr (x, heap')"
  by (simp add: heappop_def Let_def)

lemma mset_heappop:
  assumes "heappop heap = Inr (x, heap')"
  shows "mset heap = add_mset x (mset heap')"
proof -
  from assms have ne: "heap \<noteq> []" by (auto simp: heappop_def)
  then obtain ys y where heap: "heap = ys @ [y]" by (cases heap rule: rev_cases) auto
  show ?thesis
  proof (cases "ys = []")
    case True
    then show ?thesis using assms heap by (simp add: heappop_def)
  next
    case False
    then have x: "x = ys ! 0" and h': "heap' = siftup (ys[0 := y]) 0"
      using assms heap by (simp_all add: heappop_def)
    have "mset heap' = mset (ys[0 := y])" unfolding h' using False by (simp add: mset_siftup)
    also have "\<dots> = add_mset y (mset ys - {#ys ! 0#})" using False by (simp add: mset_update)
    finally show ?thesis using False heap x by simp
  qed
qed

section \<open>The merge loop\<close>

lemma merge_step_Inr:
  assumes "2 \<le> length heap"
  shows "\<exists>n1 h1 n2 h2. heappop heap = Inr (n1, h1) \<and> heappop h1 = Inr (n2, h2)
           \<and> merge_step heap
               = Inr (heappush h2 (Node None (freq n1 + freq n2) (Some n1) (Some n2)))"
proof -
  from assms have "heap \<noteq> []" by auto
  from heappop_Inr [OF this] obtain n1 h1 where 1: "heappop heap = Inr (n1, h1)" by blast
  from length_heappop [OF 1] assms have "h1 \<noteq> []" by auto
  from heappop_Inr [OF this] obtain n2 h2 where 2: "heappop h1 = Inr (n2, h2)" by blast
  from 1 2 show ?thesis by (auto simp: merge_step_def)
qed

lemma build_tree_invariant:
  assumes "J (min_heap s)" and "min_heap s \<noteq> []"
    and step: "\<And>h n1 h1 n2 h2. J h \<Longrightarrow> heappop h = Inr (n1, h1) \<Longrightarrow> heappop h1 = Inr (n2, h2)
             \<Longrightarrow> J (heappush h2 (Node None (freq n1 + freq n2) (Some n1) (Some n2)))"
  shows "\<exists>root. build_tree s = Inr (s\<lparr>min_heap := [root]\<rparr>) \<and> J [root]"
  using assms(1,2)
proof (induction s rule: build_tree.induct)
  case (1 s)
  show ?case
  proof (cases "length (min_heap s) > 1")
    case False
    with "1.prems"(2) obtain root where r: "min_heap s = [root]"
      by (cases "min_heap s") auto
    have "s\<lparr>min_heap := [root]\<rparr> = s" using r by (cases s) simp
    then have "build_tree s = Inr (s\<lparr>min_heap := [root]\<rparr>)"
      using False by (subst build_tree.simps) simp
    then show ?thesis using "1.prems"(1) r by auto
  next
    case True
    then have "2 \<le> length (min_heap s)" by simp
    from merge_step_Inr [OF this] obtain n1 h1 n2 h2 where
      p1: "heappop (min_heap s) = Inr (n1, h1)" and p2: "heappop h1 = Inr (n2, h2)" and
      m: "merge_step (min_heap s)
            = Inr (heappush h2 (Node None (freq n1 + freq n2) (Some n1) (Some n2)))"
      by blast
    let ?h = "heappush h2 (Node None (freq n1 + freq n2) (Some n1) (Some n2))"
    have J: "J ?h" using step [OF "1.prems"(1) p1 p2] .
    have ne: "?h \<noteq> []" using length_heappush [of h2] by (metis length_0_conv nat.distinct(1))
    from "1.IH" [OF True m] J ne obtain root where
      r: "build_tree (s\<lparr>min_heap := ?h\<rparr>) = Inr (s\<lparr>min_heap := ?h, min_heap := [root]\<rparr>)"
      and Jr: "J [root]" by auto
    have "build_tree s = build_tree (s\<lparr>min_heap := ?h\<rparr>)"
      using True m by (subst build_tree.simps) simp
    with r Jr show ?thesis by auto
  qed
qed

lemma build_heap_tables [simp]:
  "codes_hash_table (build_heap fd s) = codes_hash_table s"
  "reverse_codes_hash_table (build_heap fd s) = reverse_codes_hash_table s"
  by (induction fd s rule: build_heap.induct) simp_all

lemma mset_build_heap:
  "mset (min_heap (build_heap fd s))
     = mset (min_heap s) + mset (map (\<lambda>(k, f). new_node (Some k) f) fd)"
  by (induction fd s rule: build_heap.induct) (simp_all add: mset_heappush)

lemma build_heap_state:
  "build_heap fd s = s\<lparr>min_heap := min_heap (build_heap fd s)\<rparr>"
  by (induction fd s rule: build_heap.induct) simp_all

lemma build_heap_init_ne: "fd \<noteq> [] \<Longrightarrow> min_heap (build_heap fd init) \<noteq> []"
  using mset_build_heap [of fd init] by (cases fd) (auto simp: init_def)

lemma set_build_heap_init:
  "set (min_heap (build_heap fd init)) = (\<lambda>(k, f). new_node (Some k) f) ` set fd"
proof -
  have "set_mset (mset (min_heap (build_heap fd init)))
          = set_mset (mset (map (\<lambda>(k, f). new_node (Some k) f) fd))"
    unfolding mset_build_heap by (simp add: init_def)
  then show ?thesis by simp
qed

lemma set_heappop:
  "heappop h = Inr (x, h') \<Longrightarrow> set h = insert x (set h')"
  using mset_heappop [of h x h'] by (metis set_mset_add_mset_insert set_mset_mset)

lemma set_heappush: "set (heappush h x) = insert x (set h)"
  using mset_heappush [of h x] by (metis set_mset_add_mset_insert set_mset_mset)

lemma build_tree_build_heap:
  assumes "fd \<noteq> []"
    and "J (min_heap (build_heap fd init))"
    and "\<And>h n1 h1 n2 h2. J h \<Longrightarrow> heappop h = Inr (n1, h1) \<Longrightarrow> heappop h1 = Inr (n2, h2)
             \<Longrightarrow> J (heappush h2 (Node None (freq n1 + freq n2) (Some n1) (Some n2)))"
  shows "\<exists>root. build_tree (build_heap fd init) = Inr (init\<lparr>min_heap := [root]\<rparr>) \<and> J [root]"
proof -
  have "\<exists>root. build_tree (build_heap fd init) = Inr (build_heap fd init\<lparr>min_heap := [root]\<rparr>)
          \<and> J [root]"
  proof (rule build_tree_invariant [where J = J and s = "build_heap fd init"])
    show "J (min_heap (build_heap fd init))" by (rule assms(2))
    show "min_heap (build_heap fd init) \<noteq> []" by (rule build_heap_init_ne [OF assms(1)])
    show "J (heappush h2 (Node None (freq n1 + freq n2) (Some n1) (Some n2)))"
      if "J h" "heappop h = Inr (n1, h1)" "heappop h1 = Inr (n2, h2)" for h n1 h1 n2 h2
      using that by (rule assms(3))
  qed
  moreover have "build_heap fd init\<lparr>min_heap := [root]\<rparr> = init\<lparr>min_heap := [root]\<rparr>" for root
    by (subst build_heap_state) simp
  ultimately show ?thesis by auto
qed

text \<open>
  C7. For every non-empty frequency table, the merge loop of \<open>__build_tree\<close> ends with
  exactly one node on the heap, the root; in the tree below it every internal node
  (a node without a key) has two children and carries the sum of their frequencies,
  and every node with a key is a leaf.
\<close>

theorem tree_frequency_invariant:
  assumes "freq_dict \<noteq> []"
  shows "\<exists>root. build_tree (build_heap freq_dict init) = Inr (init\<lparr>min_heap := [root]\<rparr>)
           \<and> tree_inv root"
proof -
  let ?J = "\<lambda>h. \<forall>n \<in> set h. tree_inv n"
  have start: "?J (min_heap (build_heap freq_dict init))"
    by (auto simp: set_build_heap_init new_node_def)
  have step: "?J (heappush h2 (Node None (freq n1 + freq n2) (Some n1) (Some n2)))"
    if "?J h" "heappop h = Inr (n1, h1)" "heappop h1 = Inr (n2, h2)"
    for h :: "'a node list" and n1 h1 n2 h2
    using that by (auto simp: set_heappush dest!: set_heappop)
  from build_tree_build_heap [of freq_dict ?J, OF assms start step]
  show ?thesis by auto
qed

theorem tree_frequency_invariant_witness:
  "make_freq_dict ''AABBBCCCC'' \<noteq> []
   \<and> (case build_tree (build_heap (make_freq_dict ''AABBBCCCC'') init) of
        Inl e \<Rightarrow> False
      | Inr s \<Rightarrow>
          min_heap s = [Node None 9 (Some (Node (Some CHR ''C'') 4 None None))
                          (Some (Node None 5 (Some (Node (Some CHR ''A'') 2 None None))
                                             (Some (Node (Some CHR ''B'') 3 None None))))]
        \<and> tree_inv (hd (min_heap s)))"
proof -
  have ne: "make_freq_dict ''AABBBCCCC'' \<noteq> []" by code_simp
  have ev: "(case build_tree (build_heap (make_freq_dict ''AABBBCCCC'') init) of
        Inl e \<Rightarrow> False
      | Inr s \<Rightarrow>
          min_heap s = [Node None 9 (Some (Node (Some CHR ''C'') 4 None None))
                          (Some (Node None 5 (Some (Node (Some CHR ''A'') 2 None None))
                                             (Some (Node (Some CHR ''B'') 3 None None))))])"
    by code_simp
  from tree_frequency_invariant [OF ne] obtain root where
    "build_tree (build_heap (make_freq_dict ''AABBBCCCC'') init) = Inr (init\<lparr>min_heap := [root]\<rparr>)"
    "tree_inv root" by blast
  with ne ev show ?thesis by simp
qed

section \<open>The code tables\<close>

text \<open>One store of \<open>__build_codes\<close>: the code in one table, the key in the other.\<close>

definition store_code :: "'a huffman_coding \<Rightarrow> 'a \<times> bool list \<Rightarrow> 'a huffman_coding" where
  "store_code s kc =
     s\<lparr>codes_hash_table := (codes_hash_table s)(fst kc \<mapsto> snd kc),
       reverse_codes_hash_table := (reverse_codes_hash_table s)(snd kc \<mapsto> fst kc)\<rparr>"

lemma build_codes_foldl:
  "build_codes (Some t) bin_code s = foldl store_code s (leaf_codes t bin_code)"
proof (induction t bin_code arbitrary: s rule: leaf_codes.induct)
  case (1 k f l r bin_code)
  define K where "K = (case k of None \<Rightarrow> [] | Some c \<Rightarrow> [(c, bin_code)])"
  define L where "L = (case l of None \<Rightarrow> [] | Some ln \<Rightarrow> leaf_codes ln (bin_code @ [False]))"
  define R where "R = (case r of None \<Rightarrow> [] | Some rn \<Rightarrow> leaf_codes rn (bin_code @ [True]))"
  define s1 where "s1 = foldl store_code s K"
  define s2 where "s2 = build_codes l (bin_code @ [False]) s1"
  have s1: "s1 = (case k of None \<Rightarrow> s
                   | Some c \<Rightarrow> s\<lparr>codes_hash_table := (codes_hash_table s)(c \<mapsto> bin_code),
                       reverse_codes_hash_table := (reverse_codes_hash_table s)(bin_code \<mapsto> c)\<rparr>)"
    by (simp add: s1_def K_def store_code_def split: option.split)
  have l: "s2 = foldl store_code s1 L"
    unfolding s2_def L_def using "1.IH"(1) by (cases l) simp_all
  have r: "build_codes r (bin_code @ [True]) s2 = foldl store_code s2 R"
    unfolding R_def using "1.IH"(2) by (cases r) simp_all
  have "build_codes (Some (Node k f l r)) bin_code s = build_codes r (bin_code @ [True]) s2"
    by (simp add: s2_def s1 Let_def)
  also have "\<dots> = foldl store_code (foldl store_code (foldl store_code s K) L) R"
    using r unfolding l s1_def .
  also have "\<dots> = foldl store_code s (K @ L @ R)" by simp
  also have "K @ L @ R = leaf_codes (Node k f l r) bin_code"
    by (simp add: K_def L_def R_def)
  finally show ?case .
qed

lemma foldl_store_code_min_heap [simp]:
  "min_heap (foldl store_code s xs) = min_heap s"
  by (induction xs arbitrary: s) (simp_all add: store_code_def)

lemma foldl_store_code_codes:
  "distinct (map fst xs) \<Longrightarrow>
   codes_hash_table (foldl store_code s xs) k
     = (if k \<in> fst ` set xs then map_of xs k else codes_hash_table s k)"
proof (induction xs arbitrary: s)
  case Nil
  show ?case by simp
next
  case (Cons x xs)
  then show ?case by (cases x) (auto simp: store_code_def image_iff)
qed

lemma foldl_store_code_reverse:
  "distinct (map snd xs) \<Longrightarrow>
   reverse_codes_hash_table (foldl store_code s xs) c
     = (if c \<in> snd ` set xs then map_of (map (\<lambda>(k, c). (c, k)) xs) c
        else reverse_codes_hash_table s c)"
proof (induction xs arbitrary: s)
  case Nil
  show ?case by simp
next
  case (Cons x xs)
  then show ?case by (cases x) (auto simp: store_code_def image_iff)
qed

lemma map_fst_leaf_codes: "map fst (leaf_codes t bin_code) = map fst (leaf_freqs t)"
proof (induction t bin_code rule: leaf_codes.induct)
  case (1 k f l r bin_code)
  then show ?case by (cases k; cases l; cases r) simp_all
qed

lemma leaf_codes_prefix: "(x, c) \<in> set (leaf_codes t bin_code) \<Longrightarrow> prefix bin_code c"
proof (induction t bin_code rule: leaf_codes.induct)
  case (1 k f l r bin_code)
  then show ?case
    by (cases k; cases l; cases r) (auto dest: append_prefixD)
qed

lemma leaf_codes_prefix_free:
  assumes "tree_inv t" and "distinct (map fst (leaf_codes t bin_code))"
    and "(x, cx) \<in> set (leaf_codes t bin_code)" and "(y, cy) \<in> set (leaf_codes t bin_code)"
    and "x \<noteq> y"
  shows "\<not> prefix cx cy"
  using assms
proof (induction t bin_code rule: leaf_codes.induct)
  case (1 k f l r bin_code)
  show ?case
  proof (cases k)
    case (Some c)
    with "1.prems" show ?thesis by simp
  next
    case None
    with "1.prems"(1) obtain ln rn where lr: "l = Some ln" "r = Some rn"
      and inv: "tree_inv ln" "tree_inv rn"
      by (auto split: option.splits)
    let ?L = "leaf_codes ln (bin_code @ [False])" and ?R = "leaf_codes rn (bin_code @ [True])"
    have lc: "leaf_codes (Node k f l r) bin_code = ?L @ ?R" using None lr by simp
    have d: "distinct (map fst ?L)" "distinct (map fst ?R)"
      using "1.prems"(2) unfolding lc by simp_all
    have cross: "\<not> prefix a b \<and> \<not> prefix b a"
      if "(u, a) \<in> set ?L" "(v, b) \<in> set ?R" for u v a b
    proof -
      from that have "prefix (bin_code @ [False]) a" "prefix (bin_code @ [True]) b"
        by (auto dest: leaf_codes_prefix)
      then obtain a' b' where "a = bin_code @ False # a'" "b = bin_code @ True # b'"
        by (auto simp: prefix_def)
      then show ?thesis by (auto simp: prefix_def)
    qed
    from "1.prems"(3,4) consider
      "(x, cx) \<in> set ?L" "(y, cy) \<in> set ?L" | "(x, cx) \<in> set ?R" "(y, cy) \<in> set ?R" |
      "(x, cx) \<in> set ?L" "(y, cy) \<in> set ?R" | "(x, cx) \<in> set ?R" "(y, cy) \<in> set ?L"
      unfolding lc by auto
    then show ?thesis
    proof cases
      case 1
      then show ?thesis using "1.IH"(1) [OF lr(1) inv(1) d(1)] "1.prems"(5) by blast
    next
      case 2
      then show ?thesis using "1.IH"(2) [OF lr(2) inv(2) d(2)] "1.prems"(5) by blast
    next
      case 3
      then show ?thesis using cross by blast
    next
      case 4
      then show ?thesis using cross by blast
    qed
  qed
qed

section \<open>The leaves of the tree are the frequency table\<close>

definition forest_leaves :: "'a node list \<Rightarrow> ('a \<times> nat) multiset" where
  "forest_leaves h = (\<Sum>t\<in>#mset h. mset (leaf_freqs t))"

lemma forest_leaves_build_heap:
  "forest_leaves (min_heap (build_heap fd init)) = mset fd"
proof -
  have "(\<Sum>t\<in>#mset (map (\<lambda>(k, f). new_node (Some k) f) xs). mset (leaf_freqs t)) = mset xs"
    for xs :: "('a \<times> nat) list"
    by (induction xs) (auto simp: new_node_def)
  then show ?thesis
    unfolding forest_leaves_def mset_build_heap by (simp add: init_def)
qed

lemma forest_leaves_step:
  assumes "heappop h = Inr (n1, h1)" and "heappop h1 = Inr (n2, h2)"
  shows "forest_leaves (heappush h2 (Node None (freq n1 + freq n2) (Some n1) (Some n2)))
           = forest_leaves h"
  unfolding forest_leaves_def mset_heappush mset_heappop [OF assms(1)] mset_heappop [OF assms(2)]
  by simp

lemma build_tables_Inr:
  assumes "fd \<noteq> []"
  shows "\<exists>root. build_tree (build_heap fd init) = Inr (init\<lparr>min_heap := [root]\<rparr>)
           \<and> tree_inv root \<and> mset (leaf_freqs root) = mset fd
           \<and> build_tables fd init = Inr (foldl store_code init (leaf_codes root []))"
proof -
  let ?J = "\<lambda>h. (\<forall>n \<in> set h. tree_inv n) \<and> forest_leaves h = mset fd"
  have start: "?J (min_heap (build_heap fd init))"
    by (auto simp: set_build_heap_init new_node_def forest_leaves_build_heap)
  have step: "?J (heappush h2 (Node None (freq n1 + freq n2) (Some n1) (Some n2)))"
    if "?J h" "heappop h = Inr (n1, h1)" "heappop h1 = Inr (n2, h2)"
    for h :: "'a node list" and n1 h1 n2 h2
    using that forest_leaves_step [OF that(2,3)]
    by (auto simp: set_heappush dest!: set_heappop)
  have "\<exists>root. build_tree (build_heap fd init) = Inr (init\<lparr>min_heap := [root]\<rparr>) \<and> ?J [root]"
  proof (rule build_tree_build_heap [where J = ?J])
    show "fd \<noteq> []" by (rule assms)
    show "?J (min_heap (build_heap fd init))" by (rule start)
    show "?J (heappush h2 (Node None (freq n1 + freq n2) (Some n1) (Some n2)))"
      if "?J h" "heappop h = Inr (n1, h1)" "heappop h1 = Inr (n2, h2)"
      for h :: "'a node list" and n1 h1 n2 h2
      using that by (rule step)
  qed
  then obtain root where r: "build_tree (build_heap fd init) = Inr (init\<lparr>min_heap := [root]\<rparr>)"
    and inv: "tree_inv root" and fl: "forest_leaves [root] = mset fd" by auto
  have "init\<lparr>min_heap := []\<rparr> = (init :: 'a huffman_coding)" by (simp add: init_def)
  then have "build_tables fd init = Inr (foldl store_code init (leaf_codes root []))"
    by (simp add: build_tables_def r heappop_single build_codes_foldl)
  with r inv fl show ?thesis by (auto simp: forest_leaves_def)
qed

lemma leaf_keys_distinct:
  assumes "mset (leaf_freqs root) = mset fd" and "distinct (map fst fd)"
  shows "distinct (map fst (leaf_codes root bin_code))"
    and "fst ` set (leaf_codes root bin_code) = fst ` set fd"
proof -
  have m: "mset (map fst (leaf_codes root bin_code)) = mset (map fst fd)"
    unfolding map_fst_leaf_codes using assms(1) by (metis mset_map)
  show "distinct (map fst (leaf_codes root bin_code))"
    using mset_eq_imp_distinct_iff [OF m] assms(2) by simp
  show "fst ` set (leaf_codes root bin_code) = fst ` set fd"
    using mset_eq_setD [OF m] by simp
qed

lemma build_tables_codes:
  assumes "fd \<noteq> []" and "distinct (map fst fd)"
  shows "\<exists>root. build_tables fd init = Inr (foldl store_code init (leaf_codes root []))
           \<and> tree_inv root \<and> mset (leaf_freqs root) = mset fd
           \<and> distinct (map fst (leaf_codes root []))
           \<and> codes_hash_table (foldl store_code init (leaf_codes root [])) = map_of (leaf_codes root [])
           \<and> build_tree (build_heap fd init) = Inr (init\<lparr>min_heap := [root]\<rparr>)"
proof -
  from build_tables_Inr [OF assms(1)] obtain root where
    bt: "build_tables fd init = Inr (foldl store_code init (leaf_codes root []))"
    and inv: "tree_inv root" and lf: "mset (leaf_freqs root) = mset fd"
    and br: "build_tree (build_heap fd init) = Inr (init\<lparr>min_heap := [root]\<rparr>)" by blast
  have d: "distinct (map fst (leaf_codes root []))"
    using leaf_keys_distinct(1) [OF lf assms(2)] .
  have "codes_hash_table (foldl store_code init (leaf_codes root [])) k = map_of (leaf_codes root []) k" for k
  proof (cases "k \<in> fst ` set (leaf_codes root [])")
    case True
    then show ?thesis unfolding foldl_store_code_codes [OF d] by simp
  next
    case False
    then have "map_of (leaf_codes root []) k = None" by (simp add: map_of_eq_None_iff)
    with False show ?thesis unfolding foldl_store_code_codes [OF d] by (simp add: init_def)
  qed
  then show ?thesis using bt inv lf d br by auto
qed

text \<open>
  C6. For every non-empty frequency table (a dictionary: its keys are distinct), the
  tables are built without an error, every key of the table gets a code, and for two
  distinct keys neither code is a prefix of the other.
\<close>

theorem prefix_free_codes:
  assumes "freq_dict \<noteq> []" and "distinct (map fst freq_dict)"
  shows "\<exists>s. build_tables freq_dict init = Inr s
           \<and> dom (codes_hash_table s) = fst ` set freq_dict
           \<and> (\<forall>x y cx cy. x \<noteq> y \<and> codes_hash_table s x = Some cx \<and> codes_hash_table s y = Some cy
                 \<longrightarrow> \<not> prefix cx cy \<and> \<not> prefix cy cx)"
proof -
  from build_tables_codes [OF assms] obtain root where
    bt: "build_tables freq_dict init = Inr (foldl store_code init (leaf_codes root []))"
    and inv: "tree_inv root" and lf: "mset (leaf_freqs root) = mset freq_dict"
    and d: "distinct (map fst (leaf_codes root []))"
    and c: "codes_hash_table (foldl store_code init (leaf_codes root [])) = map_of (leaf_codes root [])"
    by blast
  have "dom (map_of (leaf_codes root [])) = fst ` set freq_dict"
    using leaf_keys_distinct(2) [OF lf assms(2)] by (simp add: dom_map_of_conv_image_fst)
  moreover have "\<not> prefix cx cy \<and> \<not> prefix cy cx"
    if "x \<noteq> y" "map_of (leaf_codes root []) x = Some cx" "map_of (leaf_codes root []) y = Some cy"
    for x y cx cy
  proof -
    from that have "(x, cx) \<in> set (leaf_codes root [])" "(y, cy) \<in> set (leaf_codes root [])"
      by (auto dest: map_of_SomeD)
    then show ?thesis
      using leaf_codes_prefix_free [OF inv d] that(1) by metis
  qed
  ultimately show ?thesis using bt c by auto
qed

theorem prefix_free_codes_witness:
  "[(CHR ''A'', 2), (CHR ''B'', 3), (CHR ''C'', 4 :: nat)] \<noteq> []
   \<and> distinct (map fst [(CHR ''A'', 2), (CHR ''B'', 3), (CHR ''C'', 4 :: nat)])
   \<and> (case build_tables [(CHR ''A'', 2), (CHR ''B'', 3), (CHR ''C'', 4)] init of
        Inl e \<Rightarrow> False
      | Inr s \<Rightarrow>
          codes_hash_table s CHR ''A'' = Some [True, False]
        \<and> codes_hash_table s CHR ''B'' = Some [True, True]
        \<and> codes_hash_table s CHR ''C'' = Some [False]
        \<and> dom (codes_hash_table s) = {CHR ''A'', CHR ''B'', CHR ''C''}
        \<and> \<not> prefix [True, False] [True, True] \<and> \<not> prefix [True, True] [True, False])"
proof -
  let ?fd = "[(CHR ''A'', 2), (CHR ''B'', 3), (CHR ''C'', 4 :: nat)]"
  have h: "?fd \<noteq> []" "distinct (map fst ?fd)" by simp_all
  have ev: "(case build_tables ?fd init of
        Inl e \<Rightarrow> False
      | Inr s \<Rightarrow>
          codes_hash_table s CHR ''A'' = Some [True, False]
        \<and> codes_hash_table s CHR ''B'' = Some [True, True]
        \<and> codes_hash_table s CHR ''C'' = Some [False])"
    by code_simp
  from prefix_free_codes [OF h] obtain s where
    s: "build_tables ?fd init = Inr s" and dm: "dom (codes_hash_table s) = fst ` set ?fd"
    and pf: "\<forall>x y cx cy. x \<noteq> y \<and> codes_hash_table s x = Some cx \<and> codes_hash_table s y = Some cy
                 \<longrightarrow> \<not> prefix cx cy \<and> \<not> prefix cy cx"
    by blast
  from ev s have c: "codes_hash_table s CHR ''A'' = Some [True, False]"
    "codes_hash_table s CHR ''B'' = Some [True, True]" by simp_all
  have "\<not> prefix [True, False] [True, True] \<and> \<not> prefix [True, True] [True, False]"
  proof -
    have "CHR ''A'' \<noteq> CHR ''B''" by simp
    with pf c show ?thesis by blast
  qed
  with h ev s dm show ?thesis by auto
qed

section \<open>The heap order\<close>

text \<open>
  The order \<open>heapq\<close> keeps: no item is smaller than its parent, the parent of
  position \<open>i\<close> being position \<open>(i - 1) div 2\<close>.
\<close>

definition is_heap :: "'a node list \<Rightarrow> bool" where
  "is_heap h = (\<forall>i. 0 < i \<and> i < length h \<longrightarrow> freq (h ! ((i - 1) div 2)) \<le> freq (h ! i))"

lemma is_heap_min: "is_heap h \<Longrightarrow> i < length h \<Longrightarrow> freq (h ! 0) \<le> freq (h ! i)"
proof (induction i rule: less_induct)
  case (less i)
  show ?case
  proof (cases "i = 0")
    case True
    then show ?thesis by simp
  next
    case False
    then have p: "(i - 1) div 2 < i" by auto
    have "freq (h ! 0) \<le> freq (h ! ((i - 1) div 2))"
      using less.IH [OF p less.prems(1)] p less.prems(2) by simp
    also have "\<dots> \<le> freq (h ! i)"
      using less.prems False by (simp add: is_heap_def)
    finally show ?thesis .
  qed
qed

lemma is_heap_min_set: "is_heap h \<Longrightarrow> x \<in> set h \<Longrightarrow> freq (h ! 0) \<le> freq x"
  by (auto simp: in_set_conv_nth is_heap_min)

lemma is_heap_butlast: "is_heap h \<Longrightarrow> is_heap (butlast h)"
  by (auto simp: is_heap_def nth_butlast)

text \<open>
  The invariant of the loop of \<open>_siftdown\<close> with \<open>startpos = 0\<close>: the order holds
  everywhere but between the hole \<open>pos\<close> and its parent, \<open>newitem\<close> is not above the
  children of the hole, and the parent of the hole is not above them either.
\<close>

definition hole_up :: "'a node list \<Rightarrow> 'a node \<Rightarrow> nat \<Rightarrow> bool" where
  "hole_up h newitem pos =
     ((\<forall>i. 0 < i \<and> i < length h \<and> i \<noteq> pos \<longrightarrow> freq (h ! ((i - 1) div 2)) \<le> freq (h ! i))
    \<and> (\<forall>i. 0 < i \<and> i < length h \<and> (i - 1) div 2 = pos \<longrightarrow> freq newitem \<le> freq (h ! i))
    \<and> (\<forall>i. 0 < i \<and> i < length h \<and> (i - 1) div 2 = pos \<and> 0 < pos
           \<longrightarrow> freq (h ! ((pos - 1) div 2)) \<le> freq (h ! i)))"

lemma hole_up_step:
  assumes "hole_up h newitem pos" and "pos < length h" and "0 < pos"
    and "freq newitem < freq (h ! ((pos - 1) div 2))"
  shows "hole_up (h[pos := h ! ((pos - 1) div 2)]) newitem ((pos - 1) div 2)"
proof -
  let ?pp = "(pos - 1) div 2"
  let ?h = "h[pos := h ! ?pp]"
  have pp: "?pp < pos" using assms(3) by auto
  have a: "freq (h ! ((i - 1) div 2)) \<le> freq (h ! i)" if "0 < i" "i < length h" "i \<noteq> pos" for i
    using assms(1) that by (simp add: hole_up_def)
  have c: "freq (h ! ?pp) \<le> freq (h ! i)" if "0 < i" "i < length h" "(i - 1) div 2 = pos" for i
    using assms(1,3) that by (simp add: hole_up_def)
  have 1: "freq (?h ! ((i - 1) div 2)) \<le> freq (?h ! i)"
    if "0 < i" "i < length ?h" "i \<noteq> ?pp" for i
  proof (cases "i = pos")
    case True
    then show ?thesis using assms(2) pp by simp
  next
    case False
    show ?thesis
    proof (cases "(i - 1) div 2 = pos")
      case True
      then show ?thesis using c [of i] that False assms(2) by simp
    next
      case np: False
      then show ?thesis using a [of i] that False by simp
    qed
  qed
  have 2: "freq newitem \<le> freq (?h ! i)" if "0 < i" "i < length ?h" "(i - 1) div 2 = ?pp" for i
  proof (cases "i = pos")
    case True
    then show ?thesis using assms(2,4) by simp
  next
    case False
    then have "freq (h ! ?pp) \<le> freq (h ! i)" using a [of i] that by simp
    then show ?thesis using False assms(4) by simp
  qed
  have 3: "freq (?h ! ((?pp - 1) div 2)) \<le> freq (?h ! i)"
    if "0 < i" "i < length ?h" "(i - 1) div 2 = ?pp" "0 < ?pp" for i
  proof -
    have ppp: "(?pp - 1) div 2 < ?pp" using that(4) by auto
    have g: "freq (h ! ((?pp - 1) div 2)) \<le> freq (h ! ?pp)"
      using a [of ?pp] that(4) pp assms(2) by simp
    have "freq (h ! ?pp) \<le> freq (?h ! i)"
    proof (cases "i = pos")
      case True
      then show ?thesis using assms(2) by simp
    next
      case False
      then show ?thesis using a [of i] that by simp
    qed
    moreover have "?h ! ((?pp - 1) div 2) = h ! ((?pp - 1) div 2)"
      using ppp pp by simp
    ultimately show ?thesis using g by simp
  qed
  show ?thesis unfolding hole_up_def using 1 2 3 by blast
qed

lemma hole_up_done:
  assumes "hole_up h newitem pos" and "pos < length h"
    and "pos = 0 \<or> \<not> freq newitem < freq (h ! ((pos - 1) div 2))"
  shows "is_heap (h[pos := newitem])"
  unfolding is_heap_def
proof (intro allI impI)
  fix i
  assume i: "0 < i \<and> i < length (h[pos := newitem])"
  let ?g = "h[pos := newitem]"
  show "freq (?g ! ((i - 1) div 2)) \<le> freq (?g ! i)"
  proof (cases "i = pos")
    case True
    then have "pos \<noteq> 0" using i by simp
    with assms(3) have "freq (h ! ((pos - 1) div 2)) \<le> freq newitem" by simp
    moreover have "(pos - 1) div 2 \<noteq> pos" using \<open>pos \<noteq> 0\<close> by auto
    ultimately show ?thesis using True assms(2) by simp
  next
    case False
    show ?thesis
    proof (cases "(i - 1) div 2 = pos")
      case True
      then show ?thesis using assms(1,2) i False by (simp add: hole_up_def)
    next
      case np: False
      then show ?thesis using assms(1) i False by (simp add: hole_up_def)
    qed
  qed
qed

lemma siftdown_loop_is_heap:
  "hole_up h newitem pos \<Longrightarrow> pos < length h \<Longrightarrow> is_heap (siftdown_loop h 0 newitem pos)"
proof (induction h "0::nat" newitem pos rule: siftdown_loop.induct)
  case (1 heap newitem pos)
  let ?pp = "(pos - 1) div 2"
  show ?case
  proof (cases "0 < pos \<and> node_lt newitem (heap ! ?pp)")
    case True
    then have lt: "freq newitem < freq (heap ! ?pp)" by (simp add: node_lt_def)
    have pp: "?pp < length heap" using "1.prems"(2) by auto
    have "siftdown_loop heap 0 newitem pos
            = siftdown_loop (heap[pos := heap ! ?pp]) 0 newitem ?pp"
      using True by (subst siftdown_loop.simps) (simp add: Let_def)
    moreover have "is_heap (siftdown_loop (heap[pos := heap ! ?pp]) 0 newitem ?pp)"
      using "1.hyps" [OF _ refl refl _ hole_up_step [OF "1.prems" _ lt]] True pp by simp
    ultimately show ?thesis by simp
  next
    case False
    then have "siftdown_loop heap 0 newitem pos = heap[pos := newitem]"
      by (subst siftdown_loop.simps) (auto simp: Let_def)
    moreover have "is_heap (heap[pos := newitem])"
      using False by (intro hole_up_done [OF "1.prems"]) (auto simp: node_lt_def)
    ultimately show ?thesis by simp
  qed
qed

lemma is_heap_heappush:
  assumes "is_heap h"
  shows "is_heap (heappush h x)"
proof -
  have "hole_up (h @ [x]) x (length h)"
    unfolding hole_up_def
  proof (intro conjI allI impI)
    fix i
    assume i: "0 < i \<and> i < length (h @ [x]) \<and> i \<noteq> length h"
    then have "i < length h" "(i - 1) div 2 < length h" by auto
    then show "freq ((h @ [x]) ! ((i - 1) div 2)) \<le> freq ((h @ [x]) ! i)"
      using assms i by (simp add: is_heap_def nth_append)
  next
    fix i
    assume "0 < i \<and> i < length (h @ [x]) \<and> (i - 1) div 2 = length h"
    then have False by auto
    then show "freq x \<le> freq ((h @ [x]) ! i)" ..
  next
    fix i
    assume "0 < i \<and> i < length (h @ [x]) \<and> (i - 1) div 2 = length h \<and> 0 < length h"
    then have False by auto
    then show "freq ((h @ [x]) ! ((length h - 1) div 2)) \<le> freq ((h @ [x]) ! i)" ..
  qed
  then have "is_heap (siftdown_loop (h @ [x]) 0 x (length h))"
    by (rule siftdown_loop_is_heap) simp
  then show ?thesis by (simp add: heappush_def siftdown_def)
qed

text \<open>
  The invariant of the loop of \<open>_siftup\<close>: the order holds everywhere but between the
  hole \<open>pos\<close> and its children, and the parent of the hole is not above these children.
\<close>

definition hole_down :: "'a node list \<Rightarrow> nat \<Rightarrow> bool" where
  "hole_down h pos =
     ((\<forall>i. 0 < i \<and> i < length h \<and> (i - 1) div 2 \<noteq> pos
           \<longrightarrow> freq (h ! ((i - 1) div 2)) \<le> freq (h ! i))
    \<and> (\<forall>i. 0 < i \<and> i < length h \<and> (i - 1) div 2 = pos \<and> 0 < pos
           \<longrightarrow> freq (h ! ((pos - 1) div 2)) \<le> freq (h ! i)))"

lemma hole_down_step:
  assumes "hole_down h pos" and "2 * pos + 1 < length h"
    and c: "c = (if 2 * pos + 2 < length h \<and> \<not> node_lt (h ! (2 * pos + 1)) (h ! (2 * pos + 2))
                 then 2 * pos + 2 else 2 * pos + 1)"
  shows "hole_down (h[pos := h ! c]) c"
proof -
  let ?h = "h[pos := h ! c]"
  have cc: "c = 2 * pos + 1 \<or> c = 2 * pos + 2" "c < length h" "pos < c" "(c - 1) div 2 = pos"
    using assms(2) by (auto simp: c)
  have a: "freq (h ! ((i - 1) div 2)) \<le> freq (h ! i)"
    if "0 < i" "i < length h" "(i - 1) div 2 \<noteq> pos" for i
    using assms(1) that by (simp add: hole_down_def)
  have g: "freq (h ! ((pos - 1) div 2)) \<le> freq (h ! i)"
    if "0 < i" "i < length h" "(i - 1) div 2 = pos" "0 < pos" for i
    using assms(1) that by (simp add: hole_down_def)
  have small: "freq (h ! c) \<le> freq (h ! i)" if "0 < i" "i < length h" "(i - 1) div 2 = pos" for i
  proof -
    from that have "i = 2 * pos + 1 \<or> i = 2 * pos + 2" by presburger
    then show ?thesis using that(2) by (auto simp: c node_lt_def)
  qed
  have 1: "freq (?h ! ((i - 1) div 2)) \<le> freq (?h ! i)"
    if "0 < i" "i < length ?h" "(i - 1) div 2 \<noteq> c" for i
  proof (cases "(i - 1) div 2 = pos")
    case True
    then have "i \<noteq> pos" using that(1) by auto
    then show ?thesis using small [of i] that True cc by simp
  next
    case False
    show ?thesis
    proof (cases "i = pos")
      case True
      then have "0 < pos" using that by simp
      then have "(pos - 1) div 2 \<noteq> pos" by auto
      then show ?thesis using g [of c] cc True \<open>0 < pos\<close> by simp
    next
      case ip: False
      then show ?thesis using a [of i] that False by simp
    qed
  qed
  have 2: "freq (?h ! ((c - 1) div 2)) \<le> freq (?h ! i)"
    if "0 < i" "i < length ?h" "(i - 1) div 2 = c" "0 < c" for i
  proof -
    have "i \<noteq> pos" using that(3) cc(3) by auto
    moreover have "freq (h ! c) \<le> freq (h ! i)" using a [of i] that cc by simp
    ultimately show ?thesis using cc by simp
  qed
  show ?thesis unfolding hole_down_def using 1 2 by blast
qed

lemma siftup_loop_hole_down:
  "siftup_loop h pos childpos = (h', p') \<Longrightarrow> childpos = 2 * pos + 1 \<Longrightarrow> hole_down h pos \<Longrightarrow>
   pos < length h \<Longrightarrow> hole_down h' p' \<and> p' < length h' \<and> length h' \<le> 2 * p' + 1"
proof (induction h pos childpos arbitrary: h' p' rule: siftup_loop.induct)
  case (1 heap pos childpos)
  show ?case
  proof (cases "childpos < length heap")
    case False
    then have "siftup_loop heap pos childpos = (heap, pos)"
      by (subst siftup_loop.simps) simp
    with "1.prems" False show ?thesis by simp
  next
    case True
    define c where "c = (if childpos + 1 < length heap
                            \<and> \<not> node_lt (heap ! childpos) (heap ! (childpos + 1))
                          then childpos + 1 else childpos)"
    have c': "c = (if 2 * pos + 2 < length heap
                      \<and> \<not> node_lt (heap ! (2 * pos + 1)) (heap ! (2 * pos + 2))
                   then 2 * pos + 2 else 2 * pos + 1)"
      unfolding c_def "1.prems"(2) by (simp add: add.commute)
    have cl: "c < length heap" using True by (auto simp: c_def)
    have "siftup_loop heap pos childpos = siftup_loop (heap[pos := heap ! c]) c (2 * c + 1)"
      unfolding c_def by (subst siftup_loop.simps) (simp only: True if_True Let_def)
    with "1.prems"(1) have r: "siftup_loop (heap[pos := heap ! c]) c (2 * c + 1) = (h', p')"
      by simp
    have hd: "hole_down (heap[pos := heap ! c]) c"
      using hole_down_step [OF "1.prems"(3) _ c'] True "1.prems"(2) by simp
    from "1.IH" [OF True refl c_def refl r refl hd] cl show ?thesis by simp
  qed
qed

lemma is_heap_siftup:
  assumes "hole_down h 0" and "h \<noteq> []"
  shows "is_heap (siftup h 0)"
proof -
  obtain h' p' where hp: "siftup_loop h 0 (2 * 0 + 1) = (h', p')"
    by (cases "siftup_loop h 0 (2 * 0 + 1)")
  from siftup_loop_hole_down [OF hp refl assms(1)] assms(2)
  have d: "hole_down h' p'" and p: "p' < length h'" and leaf: "length h' \<le> 2 * p' + 1" by simp_all
  let ?g = "h'[p' := h ! 0]"
  have "hole_up ?g (h ! 0) p'"
    unfolding hole_up_def
  proof (intro conjI allI impI)
    fix i
    assume i: "0 < i \<and> i < length ?g \<and> i \<noteq> p'"
    then have "(i - 1) div 2 \<noteq> p'" using leaf by auto
    then show "freq (?g ! ((i - 1) div 2)) \<le> freq (?g ! i)"
      using d i by (simp add: hole_down_def)
  next
    fix i
    assume "0 < i \<and> i < length ?g \<and> (i - 1) div 2 = p'"
    then have False using leaf by auto
    then show "freq (h ! 0) \<le> freq (?g ! i)" ..
  next
    fix i
    assume "0 < i \<and> i < length ?g \<and> (i - 1) div 2 = p' \<and> 0 < p'"
    then have False using leaf by auto
    then show "freq (?g ! ((p' - 1) div 2)) \<le> freq (?g ! i)" ..
  qed
  then have "is_heap (siftdown_loop ?g 0 (h ! 0) p')"
    by (rule siftdown_loop_is_heap) (use p in simp)
  moreover have "siftup h 0 = siftdown_loop ?g 0 (h ! 0) p'"
    using hp p by (simp add: siftup_def siftdown_def Let_def)
  ultimately show ?thesis by simp
qed

lemma heappop_is_heap:
  assumes "is_heap h" and "heappop h = Inr (x, h')"
  shows "is_heap h' \<and> (\<forall>y \<in> set h. freq x \<le> freq y)"
proof -
  from assms(2) have ne: "h \<noteq> []" by (auto simp: heappop_def)
  then obtain ys y where h: "h = ys @ [y]" by (cases h rule: rev_cases) auto
  show ?thesis
  proof (cases "ys = []")
    case True
    then show ?thesis using assms(2) h by (simp add: heappop_def is_heap_def)
  next
    case False
    then have x: "x = ys ! 0" and h': "h' = siftup (ys[0 := y]) 0"
      using assms(2) h by (simp_all add: heappop_def)
    have x0: "x = h ! 0" using x h False by (simp add: nth_append)
    have ys: "is_heap ys" using is_heap_butlast [OF assms(1)] h by simp
    have "hole_down (ys[0 := y]) 0"
      unfolding hole_down_def
    proof (intro conjI allI impI)
      fix i
      assume i: "0 < i \<and> i < length (ys[0 := y]) \<and> (i - 1) div 2 \<noteq> 0"
      then show "freq (ys[0 := y] ! ((i - 1) div 2)) \<le> freq (ys[0 := y] ! i)"
        using ys by (simp add: is_heap_def)
    next
      fix i
      assume "0 < i \<and> i < length (ys[0 := y]) \<and> (i - 1) div 2 = 0 \<and> (0::nat) < 0"
      then show "freq (ys[0 := y] ! ((0 - 1) div 2)) \<le> freq (ys[0 := y] ! i)" by simp
    qed
    then have "is_heap h'" unfolding h' using False by (intro is_heap_siftup) simp_all
    moreover have "\<forall>y \<in> set h. freq x \<le> freq y"
      unfolding x0 using is_heap_min_set [OF assms(1)] by blast
    ultimately show ?thesis by simp
  qed
qed

lemma is_heap_build_heap:
  "is_heap (min_heap s) \<Longrightarrow> is_heap (min_heap (build_heap fd s))"
  by (induction fd s rule: build_heap.induct) (simp_all add: is_heap_heappush)

lemma is_heap_build_heap_init: "is_heap (min_heap (build_heap fd init))"
  by (rule is_heap_build_heap) (simp add: init_def is_heap_def)

section \<open>Code lengths and Kraft's inequality\<close>

text \<open>
  A multiset of code lengths, none above \<open>N\<close>, satisfies Kraft's inequality when the
  sum of \<open>2 ^ (N - l)\<close> over the lengths is at most \<open>2 ^ N\<close>.
\<close>

definition kraft :: "nat \<Rightarrow> nat multiset \<Rightarrow> bool" where
  "kraft N Ls = ((\<forall>l \<in># Ls. l \<le> N) \<and> (\<Sum>l \<in># Ls. 2 ^ (N - l)) \<le> (2::nat) ^ N)"

text \<open>The cost of an assignment of lengths to weights: a multiset of pairs (weight, length).\<close>

definition acost :: "(nat \<times> nat) multiset \<Rightarrow> nat" where
  "acost A = (\<Sum>p \<in># A. fst p * snd p)"

lemma acost_add [simp]: "acost (add_mset (w, l) A) = w * l + acost A"
  by (simp add: acost_def)

lemma exchange_le:
  fixes a m la L :: nat
  assumes "a \<le> m" and "la \<le> L"
  shows "a * L + m * la \<le> a * la + m * L"
proof -
  obtain d e where "m = a + d" "L = la + e"
    using assms by (metis le_Suc_ex)
  then show ?thesis by (simp add: algebra_simps)
qed

lemma swap_max:
  assumes "(a, la) \<in># A" and "\<forall>p \<in># A. a \<le> fst p"
  shows "\<exists>A0 L. image_mset fst (add_mset (a, L) A0) = image_mset fst A
           \<and> image_mset snd (add_mset (a, L) A0) = image_mset snd A
           \<and> acost (add_mset (a, L) A0) \<le> acost A
           \<and> (\<forall>p \<in># A0. snd p \<le> L)"
proof -
  define L where "L = Max (snd ` set_mset A)"
  have fin: "finite (snd ` set_mset A)" "snd ` set_mset A \<noteq> {}" using assms(1) by auto
  have L_in: "L \<in> snd ` set_mset A" unfolding L_def using fin by (rule Max_in)
  have L_max: "snd p \<le> L" if "p \<in># A" for p
    unfolding L_def using fin(1) that by (intro Max_ge) auto
  from L_in obtain m where m: "(m, L) \<in># A" by auto
  show ?thesis
  proof (cases "la = L")
    case True
    let ?A0 = "A - {#(a, la)#}"
    have "add_mset (a, L) ?A0 = A" using assms(1) True by simp
    moreover have "\<forall>p \<in># ?A0. snd p \<le> L" using L_max by (auto dest: in_diffD)
    ultimately show ?thesis by (metis order_refl)
  next
    case False
    then have "(m, L) \<noteq> (a, la)" by auto
    with m have "(m, L) \<in># A - {#(a, la)#}" by (auto simp: in_diff_count)
    then obtain B where B: "A - {#(a, la)#} = add_mset (m, L) B"
      by (meson mset_add)
    have A: "A = add_mset (a, la) (add_mset (m, L) B)"
      using assms(1) B by (metis insert_DiffM)
    let ?A0 = "add_mset (m, la) B"
    have "a \<le> m" using assms(2) m by force
    moreover have "la \<le> L" using L_max [OF assms(1)] by simp
    ultimately have "a * L + m * la \<le> a * la + m * L" by (rule exchange_le)
    then have c: "acost (add_mset (a, L) ?A0) \<le> acost A" unfolding A by simp
    have "\<forall>p \<in># B. snd p \<le> L" using L_max unfolding A by auto
    then have mx: "\<forall>p \<in># ?A0. snd p \<le> L" using \<open>la \<le> L\<close> by auto
    have f: "image_mset fst (add_mset (a, L) ?A0) = image_mset fst A"
      and s: "image_mset snd (add_mset (a, L) ?A0) = image_mset snd A"
      unfolding A by simp_all
    from f s c mx show ?thesis by blast
  qed
qed

lemma dvd_sum_pow:
  assumes "\<forall>l \<in># Ls. l \<le> L2" and "L2 \<le> N"
  shows "(2::nat) ^ (N - L2) dvd (\<Sum>l \<in># Ls. 2 ^ (N - l))"
  using assms(1)
proof (induction Ls)
  case empty
  show ?case by simp
next
  case (add l Ls)
  then have "l \<le> L2" by simp
  then have "(2::nat) ^ (N - L2) dvd 2 ^ (N - l)" by (intro le_imp_power_dvd) simp
  with add show ?case by simp
qed

lemma kraft_shorten:
  assumes "kraft N (add_mset L (add_mset L2 Ls))" and "\<forall>l \<in># Ls. l \<le> L2"
  shows "1 \<le> L2 \<and> kraft N (add_mset (L2 - 1) Ls)"
proof -
  define d :: nat where "d = 2 ^ (N - L2)"
  define S :: nat where "S = (\<Sum>l \<in># Ls. 2 ^ (N - l))"
  from assms(1) have le: "L \<le> N" "L2 \<le> N" "\<forall>l \<in># Ls. l \<le> N"
    and sum: "2 ^ (N - L) + (d + S) \<le> (2::nat) ^ N"
    by (simp_all add: kraft_def d_def S_def)
  let ?X = "d + S"
  have "(0::nat) < 2 ^ (N - L)" by simp
  with sum have X: "?X < 2 ^ N" by linarith
  have "d dvd S" unfolding d_def S_def using assms(2) le(2) by (rule dvd_sum_pow)
  then have dX: "d dvd ?X" by simp
  have dN: "d dvd 2 ^ N" unfolding d_def by (intro le_imp_power_dvd) simp
  have "d dvd 2 ^ N - ?X" using dN dX by (rule dvd_diff_nat)
  moreover have "0 < 2 ^ N - ?X" using X by simp
  ultimately have "d \<le> 2 ^ N - ?X" by (rule dvd_imp_le)
  then have Xd: "?X + d \<le> 2 ^ N" using X by linarith
  have pos: "1 \<le> L2"
  proof (rule ccontr)
    assume "\<not> 1 \<le> L2"
    then have "d = 2 ^ N" by (simp add: d_def)
    with X show False by simp
  qed
  then have "N - (L2 - 1) = Suc (N - L2)" using le(2) by simp
  then have "(2::nat) ^ (N - (L2 - 1)) = 2 * d" by (simp add: d_def)
  then have "(\<Sum>l \<in># add_mset (L2 - 1) Ls. 2 ^ (N - l)) = ?X + d" by (simp add: S_def)
  with Xd le pos show ?thesis by (simp add: kraft_def)
qed

lemma kraft_merge:
  assumes w: "image_mset fst A = add_mset a (add_mset b W)"
    and a: "\<forall>x \<in># add_mset b W. a \<le> x" and b: "\<forall>x \<in># W. b \<le> x"
    and k: "kraft N (image_mset snd A)"
  shows "\<exists>A'. image_mset fst A' = add_mset (a + b) W \<and> kraft N (image_mset snd A')
           \<and> acost A' + a + b \<le> acost A"
proof -
  have "a \<in># image_mset fst A" unfolding w by simp
  then obtain la where la: "(a, la) \<in># A" by auto
  have amin: "\<forall>p \<in># A. a \<le> fst p"
  proof
    fix p assume "p \<in># A"
    then have "fst p \<in># image_mset fst A" by simp
    then show "a \<le> fst p" unfolding w using a by auto
  qed
  from swap_max [OF la amin] obtain A0 L where
    f0: "image_mset fst (add_mset (a, L) A0) = image_mset fst A"
    and s0: "image_mset snd (add_mset (a, L) A0) = image_mset snd A"
    and c0: "acost (add_mset (a, L) A0) \<le> acost A"
    and m0: "\<forall>p \<in># A0. snd p \<le> L" by blast
  from f0 have w0: "image_mset fst A0 = add_mset b W" unfolding w by simp
  then have "b \<in># image_mset fst A0" by simp
  then obtain lb where lb: "(b, lb) \<in># A0" by auto
  have bmin: "\<forall>p \<in># A0. b \<le> fst p"
  proof
    fix p assume "p \<in># A0"
    then have "fst p \<in># image_mset fst A0" by simp
    then show "b \<le> fst p" unfolding w0 using b by auto
  qed
  from swap_max [OF lb bmin] obtain A1 L2 where
    f1: "image_mset fst (add_mset (b, L2) A1) = image_mset fst A0"
    and s1: "image_mset snd (add_mset (b, L2) A1) = image_mset snd A0"
    and c1: "acost (add_mset (b, L2) A1) \<le> acost A0"
    and m1: "\<forall>p \<in># A1. snd p \<le> L2" by blast
  from f1 have w1: "image_mset fst A1 = W" unfolding w0 by simp
  have "L2 \<in># image_mset snd A0" unfolding s1 [symmetric] by simp
  then have L2L: "L2 \<le> L" using m0 by auto
  have lens: "image_mset snd A = add_mset L (add_mset L2 (image_mset snd A1))"
    using s0 s1 by simp
  have "\<forall>l \<in># image_mset snd A1. l \<le> L2" using m1 by auto
  from kraft_shorten [OF k [unfolded lens] this]
  have pos: "1 \<le> L2" and k': "kraft N (add_mset (L2 - 1) (image_mset snd A1))" by simp_all
  let ?A' = "add_mset (a + b, L2 - 1) A1"
  have "(a + b) * (L2 - 1) + a + b = (a + b) * L2"
    using pos by (cases L2) (simp_all add: algebra_simps)
  then have "acost ?A' + a + b = (a + b) * L2 + acost A1" by simp
  also have "\<dots> \<le> a * L + (b * L2 + acost A1)"
    using L2L by (simp add: algebra_simps)
  also have "\<dots> = a * L + acost (add_mset (b, L2) A1)" by simp
  also have "\<dots> \<le> a * L + acost A0" using c1 by simp
  also have "\<dots> = acost (add_mset (a, L) A0)" by simp
  also have "\<dots> \<le> acost A" by (rule c0)
  finally have "acost ?A' + a + b \<le> acost A" .
  moreover have "image_mset fst ?A' = add_mset (a + b) W" using w1 by simp
  moreover have "kraft N (image_mset snd ?A')" using k' by simp
  ultimately show ?thesis by blast
qed

lemma kraft_prefix_free_set:
  fixes C :: "bool list set"
  shows "finite C \<Longrightarrow> \<forall>c \<in> C. length c \<le> N \<Longrightarrow> \<forall>x \<in> C. \<forall>y \<in> C. x \<noteq> y \<longrightarrow> \<not> prefix x y \<Longrightarrow>
   (\<Sum>c \<in> C. 2 ^ (N - length c)) \<le> (2::nat) ^ N"
proof (induction N arbitrary: C)
  case 0
  then have "C \<subseteq> {[]}" by auto
  then have "C = {} \<or> C = {[]}" by auto
  then show ?case by auto
next
  case (Suc N)
  show ?case
  proof (cases "[] \<in> C")
    case True
    have "C = {[]}"
    proof (rule ccontr)
      assume "C \<noteq> {[]}"
      with True obtain y where "y \<in> C" "y \<noteq> []" by auto
      with Suc.prems(3) True have "\<not> prefix [] y" by metis
      then show False by simp
    qed
    then show ?thesis by simp
  next
    case False
    define C0 where "C0 = {t. False # t \<in> C}"
    define C1 where "C1 = {t. True # t \<in> C}"
    have C: "C = (Cons False ` C0) \<union> (Cons True ` C1)"
    proof (intro set_eqI iffI)
      fix x assume x: "x \<in> C"
      with False obtain b t where "x = b # t" by (cases x) auto
      with x show "x \<in> (Cons False ` C0) \<union> (Cons True ` C1)"
        by (cases b) (auto simp: C0_def C1_def)
    qed (auto simp: C0_def C1_def)
    have fin: "finite C0" "finite C1"
      unfolding C0_def C1_def using Suc.prems(1)
      by (auto intro!: finite_vimageI [unfolded vimage_def] simp: inj_on_def)
    have len: "\<forall>c \<in> C0. length c \<le> N" "\<forall>c \<in> C1. length c \<le> N"
      using Suc.prems(2) by (auto simp: C0_def C1_def)
    have np: "\<not> prefix x y" if "b # x \<in> C" "b # y \<in> C" "x \<noteq> y" for b x y
      using Suc.prems(3) [rule_format, of "b # x" "b # y"] that by simp
    have pf: "\<forall>x \<in> C0. \<forall>y \<in> C0. x \<noteq> y \<longrightarrow> \<not> prefix x y"
      "\<forall>x \<in> C1. \<forall>y \<in> C1. x \<noteq> y \<longrightarrow> \<not> prefix x y"
      using np by (auto simp: C0_def C1_def)
    have disj: "(Cons False ` C0) \<inter> (Cons True ` C1) = {}" by auto
    have "(\<Sum>c \<in> C. 2 ^ (Suc N - length c))
            = (\<Sum>c \<in> Cons False ` C0. 2 ^ (Suc N - length c))
              + (\<Sum>c \<in> Cons True ` C1. 2 ^ (Suc N - length c))"
      unfolding C using fin disj by (intro sum.union_disjoint) auto
    also have "(\<Sum>c \<in> Cons False ` C0. 2 ^ (Suc N - length c)) = (\<Sum>t \<in> C0. 2 ^ (N - length t))"
      by (subst sum.reindex) (auto simp: inj_on_def)
    also have "(\<Sum>c \<in> Cons True ` C1. 2 ^ (Suc N - length c)) = (\<Sum>t \<in> C1. 2 ^ (N - length t))"
      by (subst sum.reindex) (auto simp: inj_on_def)
    also have "(\<Sum>t \<in> C0. 2 ^ (N - length t)) + (\<Sum>t \<in> C1. 2 ^ (N - length t)) \<le> (2::nat) ^ N + 2 ^ N"
      using Suc.IH [OF fin(1) len(1) pf(1)] Suc.IH [OF fin(2) len(2) pf(2)] by (rule add_mono)
    finally show ?thesis by simp
  qed
qed

lemma kraft_code:
  fixes c :: "'a \<Rightarrow> bool list"
  assumes "distinct ks"
    and pf: "\<forall>x \<in> set ks. \<forall>y \<in> set ks. x \<noteq> y \<longrightarrow> \<not> prefix (c x) (c y)"
    and len: "\<forall>x \<in> set ks. length (c x) \<le> N"
  shows "kraft N (image_mset (\<lambda>k. length (c k)) (mset ks))"
proof -
  have inj: "inj_on c (set ks)"
  proof (rule inj_onI)
    fix x y assume "x \<in> set ks" "y \<in> set ks" "c x = c y"
    then show "x = y" using pf by (metis prefix_order.order_refl)
  qed
  have "(\<Sum>l \<in># image_mset (\<lambda>k. length (c k)) (mset ks). 2 ^ (N - l))
          = (\<Sum>k \<in> set ks. (2::nat) ^ (N - length (c k)))"
    using assms(1) by (simp add: image_mset.compositionality comp_def sum_unfold_sum_mset mset_set_set)
  also have "\<dots> = (\<Sum>x \<in> c ` set ks. 2 ^ (N - length x))"
    using inj by (simp add: sum.reindex)
  also have "\<dots> \<le> 2 ^ N"
  proof (rule kraft_prefix_free_set)
    show "finite (c ` set ks)" by simp
    show "\<forall>x \<in> c ` set ks. length x \<le> N" using len by auto
    show "\<forall>x \<in> c ` set ks. \<forall>y \<in> c ` set ks. x \<noteq> y \<longrightarrow> \<not> prefix x y" using pf by auto
  qed
  finally show ?thesis using len by (simp add: kraft_def)
qed

section \<open>The cost of a tree\<close>

text \<open>
  The weighted path length of a tree, counted from the children up: every node below
  the root adds its frequency once.
\<close>

fun cost :: "'a node \<Rightarrow> nat" where
  "cost (Node k f l r) =
     (case l of None \<Rightarrow> 0 | Some ln \<Rightarrow> cost ln + freq ln)
     + (case r of None \<Rightarrow> 0 | Some rn \<Rightarrow> cost rn + freq rn)"

text \<open>
  The sum over the symbols of a frequency table of frequency times code length, for
  code lengths given by \<open>len\<close>.
\<close>

definition weighted_length :: "('a \<times> nat) list \<Rightarrow> ('a \<Rightarrow> nat) \<Rightarrow> nat" where
  "weighted_length fd len = (\<Sum>(k, f)\<leftarrow>fd. f * len k)"

lemma build_tree_optimal:
  "build_tree s = Inr s' \<Longrightarrow> min_heap s' = [T] \<Longrightarrow> is_heap (min_heap s) \<Longrightarrow>
   image_mset fst A = image_mset freq (mset (min_heap s)) \<Longrightarrow> kraft N (image_mset snd A) \<Longrightarrow>
   cost T \<le> (\<Sum>t \<in># mset (min_heap s). cost t) + acost A"
proof (induction s arbitrary: A rule: build_tree.induct)
  case (1 s)
  show ?case
  proof (cases "length (min_heap s) > 1")
    case False
    then have "build_tree s = Inr s" by (subst build_tree.simps) simp
    with "1.prems"(1,2) have "min_heap s = [T]" by simp
    then show ?thesis by simp
  next
    case True
    then have "2 \<le> length (min_heap s)" by simp
    from merge_step_Inr [OF this] obtain n1 h1 n2 h2 where
      p1: "heappop (min_heap s) = Inr (n1, h1)" and p2: "heappop h1 = Inr (n2, h2)" and
      m: "merge_step (min_heap s)
            = Inr (heappush h2 (Node None (freq n1 + freq n2) (Some n1) (Some n2)))"
      by blast
    let ?new = "Node None (freq n1 + freq n2) (Some n1) (Some n2)"
    let ?h = "heappush h2 ?new"
    let ?W = "image_mset freq (mset h2)"
    from heappop_is_heap [OF "1.prems"(3) p1]
    have hp1: "is_heap h1" and min1: "\<forall>y \<in> set (min_heap s). freq n1 \<le> freq y" by simp_all
    from heappop_is_heap [OF hp1 p2]
    have hp2: "is_heap h2" and min2: "\<forall>y \<in> set h1. freq n2 \<le> freq y" by simp_all
    have ms: "mset (min_heap s) = add_mset n1 (add_mset n2 (mset h2))"
      using mset_heappop [OF p1] mset_heappop [OF p2] by simp
    have s1: "set (min_heap s) = insert n1 (insert n2 (set h2))" and s2: "set h1 = insert n2 (set h2)"
      using set_heappop [OF p1] set_heappop [OF p2] by auto
    have w: "image_mset fst A = add_mset (freq n1) (add_mset (freq n2) ?W)"
      using "1.prems"(4) ms by simp
    have a: "\<forall>x \<in># add_mset (freq n2) ?W. freq n1 \<le> x" using min1 s1 by auto
    have b: "\<forall>x \<in># ?W. freq n2 \<le> x" using min2 s2 by auto
    from kraft_merge [OF w a b "1.prems"(5)] obtain A' where
      w': "image_mset fst A' = add_mset (freq n1 + freq n2) ?W"
      and k': "kraft N (image_mset snd A')"
      and c': "acost A' + freq n1 + freq n2 \<le> acost A" by blast
    have bt: "build_tree (s\<lparr>min_heap := ?h\<rparr>) = Inr s'"
      using "1.prems"(1) True m by (subst (asm) build_tree.simps) simp
    have hh: "is_heap (min_heap (s\<lparr>min_heap := ?h\<rparr>))"
      using is_heap_heappush [OF hp2] by simp
    have ww: "image_mset fst A' = image_mset freq (mset (min_heap (s\<lparr>min_heap := ?h\<rparr>)))"
      using w' by (simp add: mset_heappush)
    from "1.IH" [OF True m bt "1.prems"(2) hh ww k']
    have "cost T \<le> (\<Sum>t \<in># mset ?h. cost t) + acost A'" by simp
    also have "(\<Sum>t \<in># mset ?h. cost t)
                 = cost n1 + freq n1 + cost n2 + freq n2 + (\<Sum>t \<in># mset h2. cost t)"
      by (simp add: mset_heappush)
    also have "\<dots> + acost A' \<le> (\<Sum>t \<in># mset (min_heap s). cost t) + acost A"
      unfolding ms using c' by simp
    finally show ?thesis by simp
  qed
qed

lemma weighted_length_append:
  "weighted_length (xs @ ys) len = weighted_length xs len + weighted_length ys len"
  by (simp add: weighted_length_def)

lemma weighted_length_cong:
  "(\<And>k. k \<in> fst ` set fd \<Longrightarrow> len1 k = len2 k) \<Longrightarrow> weighted_length fd len1 = weighted_length fd len2"
  unfolding weighted_length_def
  by (rule arg_cong [where f = sum_list], rule map_cong) (force simp: image_iff)+

lemma weighted_length_mset:
  "weighted_length fd len = (\<Sum>p \<in># mset fd. snd p * len (fst p))"
proof -
  have "(\<Sum>p \<in># mset fd. snd p * len (fst p)) = sum_list (map (\<lambda>p. snd p * len (fst p)) fd)"
    by (metis mset_map sum_mset_sum_list)
  then show ?thesis by (simp add: weighted_length_def case_prod_unfold)
qed

lemma weighted_length_leaf_codes:
  "tree_inv t \<Longrightarrow> distinct (map fst (leaf_freqs t)) \<Longrightarrow>
   weighted_length (leaf_freqs t) (\<lambda>k. length (the (map_of (leaf_codes t bin_code) k)))
     = cost t + freq t * length bin_code"
proof (induction t bin_code rule: leaf_codes.induct)
  case (1 k f l r bin_code)
  show ?case
  proof (cases k)
    case (Some c)
    with "1.prems" show ?thesis by (simp add: weighted_length_def)
  next
    case None
    with "1.prems"(1) obtain ln rn where lr: "l = Some ln" "r = Some rn"
      and inv: "tree_inv ln" "tree_inv rn" and f: "f = freq ln + freq rn"
      by (auto split: option.splits)
    let ?L = "leaf_codes ln (bin_code @ [False])" and ?R = "leaf_codes rn (bin_code @ [True])"
    let ?len = "\<lambda>k. length (the (map_of (?L @ ?R) k))"
    have lf: "leaf_freqs (Node k f l r) = leaf_freqs ln @ leaf_freqs rn"
      and lc: "leaf_codes (Node k f l r) bin_code = ?L @ ?R" using None lr by simp_all
    have d: "distinct (map fst (leaf_freqs ln))" "distinct (map fst (leaf_freqs rn))"
      and disj: "fst ` set (leaf_freqs ln) \<inter> fst ` set (leaf_freqs rn) = {}"
      using "1.prems"(2) unfolding lf by auto
    have kl: "fst ` set ?L = fst ` set (leaf_freqs ln)"
      by (metis map_fst_leaf_codes set_map)
    have "weighted_length (leaf_freqs ln) ?len
            = weighted_length (leaf_freqs ln) (\<lambda>k. length (the (map_of ?L k)))"
    proof (rule weighted_length_cong)
      fix x assume "x \<in> fst ` set (leaf_freqs ln)"
      then have "x \<in> dom (map_of ?L)" using kl by (simp add: dom_map_of_conv_image_fst)
      then show "length (the (map_of (?L @ ?R) x)) = length (the (map_of ?L x))"
        by (auto simp: map_add_dom_app_simps)
    qed
    also have "\<dots> = cost ln + freq ln * length (bin_code @ [False])"
      using "1.IH"(1) [OF lr(1) inv(1) d(1)] .
    finally have L: "weighted_length (leaf_freqs ln) ?len = cost ln + freq ln * (length bin_code + 1)"
      by simp
    have "weighted_length (leaf_freqs rn) ?len
            = weighted_length (leaf_freqs rn) (\<lambda>k. length (the (map_of ?R k)))"
    proof (rule weighted_length_cong)
      fix x assume "x \<in> fst ` set (leaf_freqs rn)"
      then have "x \<notin> dom (map_of ?L)" using kl disj by (auto simp: dom_map_of_conv_image_fst)
      then show "length (the (map_of (?L @ ?R) x)) = length (the (map_of ?R x))"
        by (auto simp: map_add_dom_app_simps)
    qed
    also have "\<dots> = cost rn + freq rn * length (bin_code @ [True])"
      using "1.IH"(2) [OF lr(2) inv(2) d(2)] .
    finally have R: "weighted_length (leaf_freqs rn) ?len = cost rn + freq rn * (length bin_code + 1)"
      by simp
    show ?thesis
      unfolding lf lc weighted_length_append L R using lr f by (simp add: algebra_simps)
  qed
qed

section \<open>Optimality\<close>

lemma optimal_root:
  fixes c :: "'a \<Rightarrow> bool list"
  assumes bt: "build_tree (build_heap fd init) = Inr (init\<lparr>min_heap := [root]\<rparr>)"
    and inv: "tree_inv root" and lf: "mset (leaf_freqs root) = mset fd"
    and d: "distinct (map fst fd)"
    and pf: "\<forall>x \<in> fst ` set fd. \<forall>y \<in> fst ` set fd. x \<noteq> y \<longrightarrow> \<not> prefix (c x) (c y)"
  shows "weighted_length fd (\<lambda>k. length (the (map_of (leaf_codes root []) k)))
           \<le> weighted_length fd (\<lambda>k. length (c k))"
proof -
  define N where "N = sum_list (map (\<lambda>k. length (c k)) (map fst fd))"
  define A where "A = image_mset (\<lambda>p. (snd p, length (c (fst p)))) (mset fd)"
  let ?h = "min_heap (build_heap fd init)"
  have mh: "mset ?h = mset (map (\<lambda>(k, f). new_node (Some k) f) fd)"
    unfolding mset_build_heap by (simp add: init_def)
  have w: "image_mset fst A = image_mset freq (mset ?h)"
    unfolding mh A_def
    by (simp add: image_mset.compositionality comp_def case_prod_unfold new_node_def)
  have c0: "(\<Sum>t \<in># mset ?h. cost t) = 0"
    unfolding mh by (simp add: image_mset.compositionality comp_def case_prod_unfold new_node_def)
  have "kraft N (image_mset (\<lambda>k. length (c k)) (mset (map fst fd)))"
  proof (rule kraft_code [OF d])
    show "\<forall>x \<in> set (map fst fd). \<forall>y \<in> set (map fst fd). x \<noteq> y \<longrightarrow> \<not> prefix (c x) (c y)"
      using pf by simp
    show "\<forall>x \<in> set (map fst fd). length (c x) \<le> N"
    proof
      fix x assume "x \<in> set (map fst fd)"
      then have "length (c x) \<in> set (map (\<lambda>k. length (c k)) (map fst fd))" by (rule imageI [of _ "set (map fst fd)" "\<lambda>k. length (c k)", unfolded set_map [symmetric]])
      then show "length (c x) \<le> N" unfolding N_def by (rule member_le_sum_list) simp
    qed
  qed
  then have k: "kraft N (image_mset snd A)"
    unfolding A_def by (simp add: image_mset.compositionality comp_def)
  have "cost root \<le> (\<Sum>t \<in># mset ?h. cost t) + acost A"
    by (rule build_tree_optimal [OF bt _ is_heap_build_heap_init w k]) simp
  also have "\<dots> = weighted_length fd (\<lambda>k. length (c k))"
    unfolding c0 weighted_length_mset acost_def A_def
    by (simp add: image_mset.compositionality comp_def)
  finally have 1: "cost root \<le> weighted_length fd (\<lambda>k. length (c k))" .
  have dl: "distinct (map fst (leaf_freqs root))"
  proof -
    have "mset (map fst (leaf_freqs root)) = mset (map fst fd)" using lf by (metis mset_map)
    from mset_eq_imp_distinct_iff [OF this] d show ?thesis by simp
  qed
  have "weighted_length fd (\<lambda>k. length (the (map_of (leaf_codes root []) k)))
          = weighted_length (leaf_freqs root) (\<lambda>k. length (the (map_of (leaf_codes root []) k)))"
    unfolding weighted_length_mset lf ..
  also have "\<dots> = cost root + freq root * length ([] :: bool list)"
    by (rule weighted_length_leaf_codes [OF inv dl])
  finally show ?thesis using 1 by simp
qed

lemma exchange_less:
  fixes a m la L :: nat
  assumes "a < m" and "la < L"
  shows "a * L + m * la < a * la + m * L"
proof -
  from assms(1) obtain d where "m = Suc (a + d)" by (auto dest: less_imp_Suc_add)
  moreover from assms(2) obtain e where "L = Suc (la + e)" by (auto dest: less_imp_Suc_add)
  ultimately show ?thesis by (simp add: algebra_simps)
qed

lemma monotone_root:
  assumes bt: "build_tree (build_heap fd init) = Inr (init\<lparr>min_heap := [root]\<rparr>)"
    and inv: "tree_inv root" and lf: "mset (leaf_freqs root) = mset fd"
    and d: "distinct (map fst fd)"
    and k1: "(k1, f1) \<in> set fd" and k2: "(k2, f2) \<in> set fd" and f: "f2 < f1"
  shows "length (the (map_of (leaf_codes root []) k1)) \<le> length (the (map_of (leaf_codes root []) k2))"
proof (rule ccontr)
  let ?lc = "leaf_codes root []"
  define cs where "cs = (\<lambda>k. the (map_of ?lc k))"
  assume "\<not> length (the (map_of ?lc k1)) \<le> length (the (map_of ?lc k2))"
  then have l: "length (cs k2) < length (cs k1)" by (simp add: cs_def)
  then have ne: "k1 \<noteq> k2" by auto
  have dlc: "distinct (map fst ?lc)" and keys: "fst ` set ?lc = fst ` set fd"
    using leaf_keys_distinct [OF lf d] by simp_all
  have mem: "(x, cs x) \<in> set ?lc" if "x \<in> fst ` set fd" for x
  proof -
    from that have "x \<in> fst ` set ?lc" unfolding keys .
    then obtain v where "(x, v) \<in> set ?lc" by force
    then have "map_of ?lc x = Some v" using dlc by simp
    with \<open>(x, v) \<in> set ?lc\<close> show ?thesis by (simp add: cs_def)
  qed
  have pf: "\<not> prefix (cs x) (cs y)" if "x \<in> fst ` set fd" "y \<in> fst ` set fd" "x \<noteq> y" for x y
    using leaf_codes_prefix_free [OF inv dlc mem [OF that(1)] mem [OF that(2)] that(3)] .
  define c' where "c' = cs(k1 := cs k2, k2 := cs k1)"
  have kk: "k1 \<in> fst ` set fd" "k2 \<in> fst ` set fd" using k1 k2 by force+
  have pf': "\<forall>x \<in> fst ` set fd. \<forall>y \<in> fst ` set fd. x \<noteq> y \<longrightarrow> \<not> prefix (c' x) (c' y)"
  proof (intro ballI impI)
    fix x y assume xy: "x \<in> fst ` set fd" "y \<in> fst ` set fd" "x \<noteq> y"
    define sw where "sw = (\<lambda>k. if k = k1 then k2 else if k = k2 then k1 else k)"
    have "c' x = cs (sw x)" "c' y = cs (sw y)" using ne by (auto simp: c'_def sw_def)
    moreover have "sw x \<in> fst ` set fd" "sw y \<in> fst ` set fd" "sw x \<noteq> sw y"
      using xy kk by (auto simp: sw_def)
    ultimately show "\<not> prefix (c' x) (c' y)" using pf by simp
  qed
  from optimal_root [OF bt inv lf d pf']
  have opt: "weighted_length fd (\<lambda>k. length (cs k)) \<le> weighted_length fd (\<lambda>k. length (c' k))"
    by (simp add: cs_def)
  have "(k1, f1) \<in># mset fd" using k1 by simp
  then obtain M1 where M1: "mset fd = add_mset (k1, f1) M1" by (meson mset_add)
  have "(k2, f2) \<in># mset fd" using k2 by simp
  then have "(k2, f2) \<in># M1" unfolding M1 using ne by simp
  then obtain M where M: "M1 = add_mset (k2, f2) M" by (meson mset_add)
  have fdM: "mset fd = add_mset (k1, f1) (add_mset (k2, f2) M)" using M1 M by simp
  have "mset (map fst fd) = add_mset k1 (add_mset k2 (image_mset fst M))"
    using fdM by (metis fst_conv image_mset_add_mset mset_map)
  then have cnt: "count (mset (map fst fd)) k = (if k = k1 then 1 else 0) + (if k = k2 then 1 else 0)
                     + count (image_mset fst M) k" for k
    by simp
  have le1: "count (mset (map fst fd)) k \<le> 1" for k
    using d by (simp add: distinct_count_atmost_1)
  have z1: "count (image_mset fst M) k1 = 0" using le1 [of k1] unfolding cnt by simp
  have z2: "count (image_mset fst M) k2 = 0" using le1 [of k2] unfolding cnt by simp
  have notin: "k1 \<notin># image_mset fst M" "k2 \<notin># image_mset fst M"
    using z1 z2 unfolding not_in_iff by blast+
  have same: "(\<Sum>p \<in># M. snd p * length (c' (fst p))) = (\<Sum>p \<in># M. snd p * length (cs (fst p)))"
  proof (rule arg_cong [where f = sum_mset], rule image_mset_cong)
    fix p assume "p \<in># M"
    then have "fst p \<in># image_mset fst M" by simp
    with notin have "fst p \<noteq> k1" "fst p \<noteq> k2" by auto
    then show "snd p * length (c' (fst p)) = snd p * length (cs (fst p))" by (simp add: c'_def)
  qed
  have "c' k1 = cs k2" "c' k2 = cs k1" using ne by (simp_all add: c'_def)
  with opt have "f1 * length (cs k1) + f2 * length (cs k2)
                   \<le> f1 * length (cs k2) + f2 * length (cs k1)"
    unfolding weighted_length_mset fdM by (simp add: same)
  moreover have "f2 * length (cs k1) + f1 * length (cs k2)
                   < f2 * length (cs k2) + f1 * length (cs k1)"
    using f l by (rule exchange_less)
  ultimately show False by simp
qed

text \<open>
  C8. For every non-empty frequency table (a dictionary: its keys are distinct), the
  tables are built without an error and every key gets a code; the codes are
  prefix-free; the sum over the keys of frequency times code length is not above that
  of any assignment \<open>c\<close> of bit strings to the keys that is prefix-free; and a key
  with a strictly higher frequency never has a strictly longer code.
\<close>

theorem huffman_optimal:
  fixes c :: "'a \<Rightarrow> bool list"
  assumes "freq_dict \<noteq> []" and "distinct (map fst freq_dict)"
    and "\<forall>x \<in> fst ` set freq_dict. \<forall>y \<in> fst ` set freq_dict. x \<noteq> y \<longrightarrow> \<not> prefix (c x) (c y)"
  shows "\<exists>s. build_tables freq_dict init = Inr s
           \<and> fst ` set freq_dict \<subseteq> dom (codes_hash_table s)
           \<and> (\<forall>x \<in> fst ` set freq_dict. \<forall>y \<in> fst ` set freq_dict. x \<noteq> y \<longrightarrow>
                 \<not> prefix (the (codes_hash_table s x)) (the (codes_hash_table s y)))
           \<and> weighted_length freq_dict (\<lambda>k. length (the (codes_hash_table s k)))
                \<le> weighted_length freq_dict (\<lambda>k. length (c k))
           \<and> (\<forall>(k1, f1) \<in> set freq_dict. \<forall>(k2, f2) \<in> set freq_dict. f2 < f1 \<longrightarrow>
                 length (the (codes_hash_table s k1)) \<le> length (the (codes_hash_table s k2)))"
proof -
  from build_tables_codes [OF assms(1,2)] obtain root where
    bt: "build_tables freq_dict init = Inr (foldl store_code init (leaf_codes root []))"
    and inv: "tree_inv root" and lf: "mset (leaf_freqs root) = mset freq_dict"
    and d: "distinct (map fst (leaf_codes root []))"
    and cm: "codes_hash_table (foldl store_code init (leaf_codes root [])) = map_of (leaf_codes root [])"
    and br: "build_tree (build_heap freq_dict init) = Inr (init\<lparr>min_heap := [root]\<rparr>)"
    by blast
  let ?s = "foldl store_code init (leaf_codes root [])"
  let ?lc = "leaf_codes root []"
  have keys: "fst ` set ?lc = fst ` set freq_dict"
    using leaf_keys_distinct(2) [OF lf assms(2)] .
  have 1: "fst ` set freq_dict \<subseteq> dom (codes_hash_table ?s)"
    unfolding cm using keys by (simp add: dom_map_of_conv_image_fst)
  have mem: "(x, the (map_of ?lc x)) \<in> set ?lc" if "x \<in> fst ` set freq_dict" for x
  proof -
    from that have "x \<in> fst ` set ?lc" unfolding keys .
    then obtain v where v: "(x, v) \<in> set ?lc" by force
    then have "map_of ?lc x = Some v" using d by simp
    with v show ?thesis by simp
  qed
  have 2: "\<forall>x \<in> fst ` set freq_dict. \<forall>y \<in> fst ` set freq_dict. x \<noteq> y \<longrightarrow>
             \<not> prefix (the (codes_hash_table ?s x)) (the (codes_hash_table ?s y))"
    unfolding cm using leaf_codes_prefix_free [OF inv d mem mem] by blast
  have 3: "weighted_length freq_dict (\<lambda>k. length (the (codes_hash_table ?s k)))
             \<le> weighted_length freq_dict (\<lambda>k. length (c k))"
    unfolding cm by (rule optimal_root [OF br inv lf assms(2,3)])
  have 4: "\<forall>(k1, f1) \<in> set freq_dict. \<forall>(k2, f2) \<in> set freq_dict. f2 < f1 \<longrightarrow>
             length (the (codes_hash_table ?s k1)) \<le> length (the (codes_hash_table ?s k2))"
    unfolding cm using monotone_root [OF br inv lf assms(2)] by blast
  from bt 1 2 3 4 show ?thesis by blast
qed

theorem huffman_optimal_witness:
  "(case build_tables [(CHR ''A'', 2), (CHR ''B'', 3), (CHR ''C'', 4)] init of
      Inl e \<Rightarrow> False
    | Inr s \<Rightarrow>
        map (\<lambda>k. the (codes_hash_table s k)) ''ABC'' = [[True, False], [True, True], [False]]
      \<and> weighted_length [(CHR ''A'', 2), (CHR ''B'', 3), (CHR ''C'', 4)]
            (\<lambda>k. length (the (codes_hash_table s k))) = 14
      \<and> weighted_length [(CHR ''A'', 2), (CHR ''B'', 3), (CHR ''C'', 4)]
            (\<lambda>k. length (if k = CHR ''A'' then [False] else if k = CHR ''B'' then [True, False]
                           else [True, True])) = 16
      \<and> weighted_length [(CHR ''A'', 2), (CHR ''B'', 3), (CHR ''C'', 4)]
            (\<lambda>k. length (the (codes_hash_table s k)))
          \<le> weighted_length [(CHR ''A'', 2), (CHR ''B'', 3), (CHR ''C'', 4)]
            (\<lambda>k. length (if k = CHR ''A'' then [False] else if k = CHR ''B'' then [True, False]
                           else [True, True])))"
proof -
  let ?fd = "[(CHR ''A'', 2), (CHR ''B'', 3), (CHR ''C'', 4 :: nat)]"
  let ?c = "\<lambda>k. if k = CHR ''A'' then [False] else if k = CHR ''B'' then [True, False]
                           else [True, True]"
  have h: "?fd \<noteq> []" "distinct (map fst ?fd)" by simp_all
  have pf: "\<forall>x \<in> fst ` set ?fd. \<forall>y \<in> fst ` set ?fd. x \<noteq> y \<longrightarrow> \<not> prefix (?c x) (?c y)"
    by simp
  have ev: "(case build_tables ?fd init of
      Inl e \<Rightarrow> False
    | Inr s \<Rightarrow>
        map (\<lambda>k. the (codes_hash_table s k)) ''ABC'' = [[True, False], [True, True], [False]]
      \<and> weighted_length ?fd (\<lambda>k. length (the (codes_hash_table s k))) = 14
      \<and> weighted_length ?fd (\<lambda>k. length (?c k)) = 16)"
    by code_simp
  from huffman_optimal [of ?fd ?c, OF h pf] obtain s where
    s: "build_tables ?fd init = Inr s"
    and le: "weighted_length ?fd (\<lambda>k. length (the (codes_hash_table s k)))
                \<le> weighted_length ?fd (\<lambda>k. length (?c k))"
    by blast
  from ev s le show ?thesis by simp
qed

section \<open>The round trip for a text of at least two different characters\<close>

text \<open>
  With two or more different characters in the text every code is non-empty, the
  reverse table holds exactly the codes, and the decoding loop finds the codes one by
  one: the script returns the text it compressed. The round trip fails only for the
  texts of one repeated character.
\<close>

lemma map_fst_counter_add:
  "map fst (counter_add x kvs) = (if x \<in> fst ` set kvs then map fst kvs else map fst kvs @ [x])"
  by (induction x kvs rule: counter_add.induct) (auto simp: image_iff)

lemma fold_counter_add_keys:
  "distinct (map fst acc) \<Longrightarrow>
   distinct (map fst (fold counter_add xs acc))
   \<and> fst ` set (fold counter_add xs acc) = fst ` set acc \<union> set xs"
proof (induction xs arbitrary: acc)
  case Nil
  then show ?case by simp
next
  case (Cons x xs)
  have d: "distinct (map fst (counter_add x acc))"
    using Cons.prems by (simp add: map_fst_counter_add)
  have s: "fst ` set (counter_add x acc) = insert x (fst ` set acc)"
    using arg_cong [OF map_fst_counter_add [of x acc], of set] by (auto split: if_splits)
  from Cons.IH [OF d] show ?case unfolding s by simp
qed

lemma make_freq_dict_keys:
  "distinct (map fst (make_freq_dict text))" "fst ` set (make_freq_dict text) = set text"
  using fold_counter_add_keys [of "[]" "text"] by (simp_all add: make_freq_dict_def counter_def)

lemma leaf_codes_longer:
  assumes "tree_inv t" and "2 \<le> length (leaf_freqs t)" and "(x, c) \<in> set (leaf_codes t bin_code)"
  shows "length bin_code < length c"
proof (cases t)
  case (Node k f l r)
  show ?thesis
  proof (cases k)
    case (Some a)
    with assms(1,2) Node show ?thesis by simp
  next
    case None
    with assms(1) Node obtain ln rn where lr: "l = Some ln" "r = Some rn"
      by (auto split: option.splits)
    from assms(3) have "(x, c) \<in> set (leaf_codes ln (bin_code @ [False]))
                          \<or> (x, c) \<in> set (leaf_codes rn (bin_code @ [True]))"
      unfolding Node using None lr by simp
    then have "prefix (bin_code @ [False]) c \<or> prefix (bin_code @ [True]) c"
      by (auto dest: leaf_codes_prefix)
    then show ?thesis by (auto dest!: prefix_length_le)
  qed
qed

lemma encode_chars_concat:
  "\<forall>x \<in> set text. codes x = Some (cs x) \<Longrightarrow>
   encode_chars codes text acc = Inr (acc @ concat (map cs text))"
  by (induction "text" arbitrary: acc) simp_all

lemma decode_loop_one_code:
  assumes "rev_codes (cur @ suf) = Some x" and "suf \<noteq> []"
    and "\<forall>p. strict_prefix p (cur @ suf) \<and> p \<noteq> [] \<longrightarrow> rev_codes p = None"
  shows "decode_loop rev_codes (suf @ rest) dec cur = decode_loop rev_codes rest (dec @ [x]) []"
  using assms
proof (induction suf arbitrary: cur)
  case Nil
  then show ?case by simp
next
  case (Cons b suf)
  show ?case
  proof (cases "suf = []")
    case True
    then show ?thesis using Cons.prems(1) by simp
  next
    case False
    then have "strict_prefix (cur @ [b]) (cur @ b # suf)" by (simp add: strict_prefix_def)
    with Cons.prems(3) have n: "rev_codes (cur @ [b]) = None" by simp
    have "decode_loop rev_codes (suf @ rest) dec (cur @ [b])
            = decode_loop rev_codes rest (dec @ [x]) []"
      using Cons.IH [of "cur @ [b]"] Cons.prems False by simp
    then show ?thesis using n by simp
  qed
qed

lemma decode_loop_concat:
  assumes rev: "\<forall>x \<in> K. rev_codes (cs x) = Some x"
    and dom: "\<forall>p. rev_codes p \<noteq> None \<longrightarrow> p \<in> cs ` K"
    and ne: "\<forall>x \<in> K. cs x \<noteq> []"
    and pf: "\<forall>x \<in> K. \<forall>y \<in> K. x \<noteq> y \<longrightarrow> \<not> prefix (cs x) (cs y)"
  shows "set text \<subseteq> K \<Longrightarrow> decode_loop rev_codes (concat (map cs text)) dec [] = (dec @ text, [])"
proof (induction "text" arbitrary: dec)
  case Nil
  show ?case by simp
next
  case (Cons x xs)
  then have x: "x \<in> K" by simp
  have none: "\<forall>p. strict_prefix p ([] @ cs x) \<and> p \<noteq> [] \<longrightarrow> rev_codes p = None"
  proof (intro allI impI, rule ccontr)
    fix p assume p: "strict_prefix p ([] @ cs x) \<and> p \<noteq> []" and "rev_codes p \<noteq> None"
    with dom obtain y where y: "y \<in> K" "p = cs y" by blast
    with p have px: "prefix (cs y) (cs x)" and "cs y \<noteq> cs x" by (auto simp: strict_prefix_def)
    then have "y \<noteq> x" by auto
    with pf x y(1) have "\<not> prefix (cs y) (cs x)" by simp
    with px show False by simp
  qed
  have "decode_loop rev_codes (cs x @ concat (map cs xs)) dec []
          = decode_loop rev_codes (concat (map cs xs)) (dec @ [x]) []"
    using decode_loop_one_code [of rev_codes "[]" "cs x" x "concat (map cs xs)" dec]
      rev ne x none by simp
  then show ?case using Cons.IH [of "dec @ [x]"] Cons.prems by simp
qed

lemma leaf_codes_distinct_codes:
  assumes "tree_inv t" and "distinct (map fst (leaf_codes t bin_code))"
  shows "distinct (map snd (leaf_codes t bin_code))"
proof -
  let ?lc = "leaf_codes t bin_code"
  have "distinct ?lc" using assms(2) by (simp add: distinct_map)
  moreover have "inj_on snd (set ?lc)"
  proof (rule inj_onI)
    fix p q assume pq: "p \<in> set ?lc" "q \<in> set ?lc" "snd p = snd q"
    show "p = q"
    proof (rule ccontr)
      assume "p \<noteq> q"
      with pq(3) have "fst p \<noteq> fst q" by (auto simp: prod_eq_iff)
      moreover have "(fst p, snd p) \<in> set ?lc" "(fst q, snd q) \<in> set ?lc" using pq(1,2) by simp_all
      ultimately have "\<not> prefix (snd p) (snd q)"
        using leaf_codes_prefix_free [OF assms] by blast
      with pq(3) show False by simp
    qed
  qed
  ultimately show ?thesis by (simp add: distinct_map)
qed

lemma roundtrip_two_symbols:
  assumes "2 \<le> card (set xs)"
  shows "compress_then_decompress xs = Inr xs"
proof -
  let ?fd = "make_freq_dict xs"
  have dk: "distinct (map fst ?fd)" and ks: "fst ` set ?fd = set xs"
    by (rule make_freq_dict_keys)+
  have "set xs \<noteq> {}" using assms by auto
  with ks have ne: "?fd \<noteq> []" by auto
  from build_tables_codes [OF ne dk] obtain root where
    bt: "build_tables ?fd init = Inr (foldl store_code init (leaf_codes root []))"
    and inv: "tree_inv root" and lf: "mset (leaf_freqs root) = mset ?fd"
    and d: "distinct (map fst (leaf_codes root []))"
    and cm: "codes_hash_table (foldl store_code init (leaf_codes root [])) = map_of (leaf_codes root [])"
    by blast
  let ?lc = "leaf_codes root []"
  let ?s = "foldl store_code init ?lc"
  define cs where "cs = (\<lambda>k. the (map_of ?lc k))"
  have keys: "fst ` set ?lc = set xs"
    using leaf_keys_distinct(2) [OF lf dk] ks by simp
  have "length (leaf_freqs root) = length ?fd"
    using lf by (metis size_mset)
  also have "\<dots> = length (map fst ?fd)" by simp
  also have "\<dots> = card (set (map fst ?fd))" using distinct_card [OF dk] by simp
  also have "\<dots> = card (set xs)" using ks by simp
  finally have two: "2 \<le> length (leaf_freqs root)" using assms by simp
  have mem: "(x, cs x) \<in> set ?lc" if "x \<in> set xs" for x
  proof -
    from that have "x \<in> fst ` set ?lc" unfolding keys .
    then obtain v where v: "(x, v) \<in> set ?lc" by force
    then have "map_of ?lc x = Some v" using d by simp
    with v show ?thesis by (simp add: cs_def)
  qed
  have codes: "\<forall>x \<in> set xs. codes_hash_table ?s x = Some (cs x)"
    unfolding cm using mem d by simp
  have dc: "distinct (map snd ?lc)" using leaf_codes_distinct_codes [OF inv d] .
  let ?sw = "map (\<lambda>(k, c). (c, k)) ?lc"
  have rv: "reverse_codes_hash_table ?s p
              = (if p \<in> snd ` set ?lc then map_of ?sw p else None)" for p
    unfolding foldl_store_code_reverse [OF dc] by (simp add: init_def)
  have dsw: "distinct (map fst ?sw)" using dc by (simp add: comp_def case_prod_unfold)
  have r1: "\<forall>x \<in> set xs. reverse_codes_hash_table ?s (cs x) = Some x"
  proof
    fix x assume "x \<in> set xs"
    from mem [OF this] have m: "(x, cs x) \<in> set ?lc" .
    then have "(cs x, x) \<in> set ?sw" by force
    with dsw have "map_of ?sw (cs x) = Some x" by simp
    moreover have "cs x \<in> snd ` set ?lc" using m by force
    ultimately show "reverse_codes_hash_table ?s (cs x) = Some x" unfolding rv by simp
  qed
  have r2: "\<forall>p. reverse_codes_hash_table ?s p \<noteq> None \<longrightarrow> p \<in> cs ` set xs"
  proof (intro allI impI)
    fix p assume "reverse_codes_hash_table ?s p \<noteq> None"
    then have "p \<in> snd ` set ?lc" unfolding rv by (simp split: if_splits)
    then obtain y where y: "(y, p) \<in> set ?lc" by force
    then have "map_of ?lc y = Some p" using d by simp
    then have "cs y = p" by (simp add: cs_def)
    moreover have "y \<in> set xs" using y keys by force
    ultimately show "p \<in> cs ` set xs" by blast
  qed
  have r3: "\<forall>x \<in> set xs. cs x \<noteq> []"
    using leaf_codes_longer [OF inv two mem] by fastforce
  have r4: "\<forall>x \<in> set xs. \<forall>y \<in> set xs. x \<noteq> y \<longrightarrow> \<not> prefix (cs x) (cs y)"
    using leaf_codes_prefix_free [OF inv d mem mem] by blast
  let ?enc = "concat (map cs xs)"
  let ?p = "8 - length ?enc mod 8"
  have enc: "encode_chars (codes_hash_table ?s) xs [] = Inr ?enc"
    using encode_chars_concat [OF codes, of "[]"] by simp
  have "\<exists>f. compress init xs = Inr (?s, f)"
    by (simp add: compress_def bt encode_text_def enc bytes_encoded_to_bin Let_def)
  then obtain f where c: "compress init xs = Inr (?s, f)" by blast
  have "bit_string_of f = format_08b ?p @ ?enc @ replicate ?p False"
    by (rule compress_bit_string [OF c enc])
  then have "remove_pad (bit_string_of f) = Inr ?enc"
    by (simp add: remove_pad_padded)
  moreover have "decode_text ?s ?enc = xs"
    unfolding decode_text_def
    using decode_loop_concat [OF r1 r2 r3 r4 subset_refl, of "[]"] by simp
  ultimately have "decompress ?s f = Inr xs" by (simp add: decompress_def)
  then show ?thesis by (simp add: compress_then_decompress_def c)
qed

end
